theory Spec2Isabelle
  imports Complex_Main "HOL-Library.Word" "HOL-Library.While_Combinator"
begin

section \<open>Matrix store (Algo/Graph.hpp, class AdjMat)\<close>

type_synonym u16 = "16 word"
type_synonym u32 = "32 word"
type_synonym u64 = "64 word"

text \<open>
  The C++ exceptions the core can raise.  Every explicit \<^verbatim>\<open>throw\<close> of the two headers
  raises \<^verbatim>\<open>std::out_of_range\<close> with a message; \<^verbatim>\<open>std::bad_alloc\<close> is what
  \<^verbatim>\<open>std::make_unique\<close> raises on exhaustion.
\<close>

datatype exception = out_of_range string | bad_alloc

fun is_out_of_range :: "exception \<Rightarrow> bool" where
  "is_out_of_range (out_of_range msg) = True"
| "is_out_of_range bad_alloc = False"

text \<open>
  \<^verbatim>\<open>const uint32_t n_; const std::unique_ptr<uint16_t[]> data_;\<close>
  The buffer is a list of 16-bit weights; its length is what the constructor allocated.
\<close>

record AdjMat =
  mat_n :: u32
  mat_data :: "u16 list"

text \<open>
  \<^verbatim>\<open>explicit AdjMat(uint32_t n) : n_(n), data_(std::make_unique<uint16_t[]>(n * n)) {}\<close>
  The product \<^verbatim>\<open>n * n\<close> has type \<^verbatim>\<open>uint32_t\<close>: it is a product of 32-bit words and
  wraps modulo \<open>2^32\<close> before it becomes the element count. The array is value-initialised.
\<close>

definition construct :: "u32 \<Rightarrow> AdjMat" where
  "construct n = \<lparr>mat_n = n, mat_data = replicate (unat (n * n)) 0\<rparr>"

definition size_n :: "AdjMat \<Rightarrow> u32" where
  "size_n m = mat_n m"

definition check_bounds :: "AdjMat \<Rightarrow> u32 \<Rightarrow> bool" where
  "check_bounds m i = (if mat_n m \<le> i then False else True)"

text \<open>
  The offset \<^verbatim>\<open>i * n_ + j\<close> of the member functions: all three operands are
  \<^verbatim>\<open>uint32_t\<close>, so the offset is computed in 32-bit words.
\<close>

definition cell :: "AdjMat \<Rightarrow> u32 \<Rightarrow> u32 \<Rightarrow> nat" where
  "cell m i j = unat (i * mat_n m + j)"

text \<open>
  The writes mutate the object in place and may throw. Each returns the exception raised
  (if any) together with the matrix as it is when the call is left.
\<close>

definition bi_set :: "AdjMat \<Rightarrow> u32 \<Rightarrow> u32 \<Rightarrow> u16 \<Rightarrow> exception option \<times> AdjMat" where
  "bi_set m i j w =
     (if \<not> (check_bounds m i \<and> check_bounds m j)
      then (Some (out_of_range ''Index out of bounds''), m)
      else if i = j
      then (Some (out_of_range ''Should not modify diagonal''), m)
      else (None, m\<lparr>mat_data := (mat_data m)[cell m i j := w, cell m j i := w]\<rparr>))"

definition set_edge :: "AdjMat \<Rightarrow> u32 \<Rightarrow> u32 \<Rightarrow> u16 \<Rightarrow> exception option \<times> AdjMat" where
  "set_edge m i j w =
     (if \<not> (check_bounds m i \<and> check_bounds m j)
      then (Some (out_of_range ''Index out of bounds''), m)
      else if i = j
      then (Some (out_of_range ''Should not modify diagonal''), m)
      else (None, m\<lparr>mat_data := (mat_data m)[cell m i j := w]\<rparr>))"

text \<open>\<^verbatim>\<open>uint16_t operator()(uint32_t i, uint32_t j) const\<close>\<close>

definition read :: "AdjMat \<Rightarrow> u32 \<Rightarrow> u32 \<Rightarrow> exception + u16" where
  "read m i j =
     (if \<not> (check_bounds m i \<and> check_bounds m j)
      then Inl (out_of_range ''Index out of bounds'')
      else Inr (mat_data m ! cell m i j))"

text \<open>
  A matrix whose buffer really holds \<open>n \<times> n\<close> cells: the product did not wrap.
  Outside this set the member functions index past the allocation.
\<close>

definition covered :: "AdjMat \<Rightarrow> bool" where
  "covered m = (unat (mat_n m) < 2 ^ 16 \<and> length (mat_data m) = unat (mat_n m) * unat (mat_n m))"

section \<open>Graph registry (Application/GraphManager.hpp)\<close>

text \<open>\<^verbatim>\<open>struct line { std::uint16_t u; std::uint16_t v; std::uint16_t weight; };\<close>\<close>

record line =
  line_u :: u16
  line_v :: u16
  line_weight :: u16

record GraphManager =
  registry :: "u64 \<rightharpoonup> AdjMat"
  next_id :: u64

text \<open>\<^verbatim>\<open>std::atomic<uint64_t> next_id_{1};\<close> and an empty map.\<close>

definition instance_init :: GraphManager where
  "instance_init = \<lparr>registry = Map.empty, next_id = 1\<rparr>"

definition create :: "GraphManager \<Rightarrow> u32 \<Rightarrow> u64 \<times> GraphManager" where
  "create gm sz =
     (let ident = next_id gm
      in (ident, gm\<lparr>registry := (registry gm)(ident \<mapsto> construct sz), next_id := next_id gm + 1\<rparr>))"

definition exists_id :: "GraphManager \<Rightarrow> u64 \<Rightarrow> bool" where
  "exists_id gm ident = (registry gm ident \<noteq> None)"

text \<open>
  One edge write through the registry entry: \<^verbatim>\<open>l.u\<close> and \<^verbatim>\<open>l.v\<close> are widened from 16 to
  32 bits at the call.
\<close>

definition write_line :: "AdjMat \<Rightarrow> line \<Rightarrow> bool \<Rightarrow> exception option \<times> AdjMat" where
  "write_line mat l bi =
     (if bi then bi_set mat (ucast (line_u l)) (ucast (line_v l)) (line_weight l)
      else set_edge mat (ucast (line_u l)) (ucast (line_v l)) (line_weight l))"

text \<open>
  The registry owns the matrix through a pointer, so whatever the write did to the matrix
  is what the entry holds afterwards, exception or not.
\<close>

definition gm_set :: "GraphManager \<Rightarrow> u64 \<Rightarrow> line \<Rightarrow> bool \<Rightarrow> exception option \<times> GraphManager" where
  "gm_set gm ident l bi =
     (case registry gm ident of
        None \<Rightarrow> (Some (out_of_range ''Invalid graph ID''), gm)
      | Some mat \<Rightarrow>
          (case write_line mat l bi of
             (e, mat') \<Rightarrow> (e, gm\<lparr>registry := (registry gm)(ident \<mapsto> mat')\<rparr>)))"

text \<open>The range-for of \<^verbatim>\<open>bash_set\<close>: the first throwing write leaves the loop.\<close>

fun bash_set_loop :: "AdjMat \<Rightarrow> line list \<Rightarrow> bool \<Rightarrow> exception option \<times> AdjMat" where
  "bash_set_loop mat [] bi = (None, mat)"
| "bash_set_loop mat (l # ls) bi =
     (case write_line mat l bi of
        (Some e, mat') \<Rightarrow> (Some e, mat')
      | (None, mat') \<Rightarrow> bash_set_loop mat' ls bi)"

definition bash_set :: "GraphManager \<Rightarrow> u64 \<Rightarrow> line list \<Rightarrow> bool \<Rightarrow> exception option \<times> GraphManager" where
  "bash_set gm ident ls bi =
     (case registry gm ident of
        None \<Rightarrow> (Some (out_of_range ''Invalid graph ID''), gm)
      | Some mat \<Rightarrow>
          (case bash_set_loop mat ls bi of
             (e, mat') \<Rightarrow> (e, gm\<lparr>registry := (registry gm)(ident \<mapsto> mat')\<rparr>)))"

definition destroy :: "GraphManager \<Rightarrow> u64 \<Rightarrow> bool \<times> GraphManager" where
  "destroy gm ident = (registry gm ident \<noteq> None, gm\<lparr>registry := (registry gm)(ident := None)\<rparr>)"

definition atexit :: "GraphManager \<Rightarrow> GraphManager" where
  "atexit gm = gm\<lparr>registry := Map.empty\<rparr>"

definition list_ids :: "GraphManager \<Rightarrow> u64 set" where
  "list_ids gm = dom (registry gm)"

text \<open>\<^verbatim>\<open>get_graph\<close>: the lookup every query starts with.\<close>

definition get_graph :: "GraphManager \<Rightarrow> u64 \<Rightarrow> exception + AdjMat" where
  "get_graph gm ident =
     (case registry gm ident of None \<Rightarrow> Inl (out_of_range ''Graph not found'') | Some mat \<Rightarrow> Inr mat)"

section \<open>Example inputs\<close>

definition edge :: "u16 \<Rightarrow> u16 \<Rightarrow> u16 \<Rightarrow> line" where
  "edge a b w = \<lparr>line_u = a, line_v = b, line_weight = w\<rparr>"

definition gm_one :: GraphManager where
  "gm_one = snd (create instance_init 3)"

section \<open>Sequences of writes and of registry requests\<close>

datatype write_op = W_set u32 u32 u16 | W_bi_set u32 u32 u16

fun apply_write :: "AdjMat \<Rightarrow> write_op \<Rightarrow> exception option \<times> AdjMat" where
  "apply_write m (W_set i j w) = set_edge m i j w"
| "apply_write m (W_bi_set i j w) = bi_set m i j w"

text \<open>A sequence of writes all of which succeed, and the matrix they leave.\<close>

fun apply_writes :: "AdjMat \<Rightarrow> write_op list \<Rightarrow> AdjMat option" where
  "apply_writes m [] = Some m"
| "apply_writes m (x # xs) =
     (case apply_write m x of (Some e, m') \<Rightarrow> None | (None, m') \<Rightarrow> apply_writes m' xs)"

definition diagonal_zero :: "AdjMat \<Rightarrow> bool" where
  "diagonal_zero m = (\<forall>i. i < mat_n m \<longrightarrow> read m i i = Inr 0)"

text \<open>
  The calls that reach the registry. \<open>Query\<close> stands for any of the read-only operations
  (\<^verbatim>\<open>exists\<close>, \<^verbatim>\<open>list_ids\<close> and the algorithm queries), which take the shared lock and
  leave the registry as it is.
\<close>

datatype request =
    Create u32
  | SetLine u64 line bool
  | BashSet u64 "line list" bool
  | Destroy u64
  | AtExit
  | Query

fun is_create :: "request \<Rightarrow> bool" where
  "is_create (Create sz) = True"
| "is_create r = False"

text \<open>One request: the handle it issued (a \<^verbatim>\<open>create\<close> only) and the registry afterwards.\<close>

fun serve :: "GraphManager \<Rightarrow> request \<Rightarrow> u64 option \<times> GraphManager" where
  "serve gm (Create sz) = (case create gm sz of (h, gm') \<Rightarrow> (Some h, gm'))"
| "serve gm (SetLine ident l bi) = (None, snd (gm_set gm ident l bi))"
| "serve gm (BashSet ident ls bi) = (None, snd (bash_set gm ident ls bi))"
| "serve gm (Destroy ident) = (None, snd (destroy gm ident))"
| "serve gm AtExit = (None, atexit gm)"
| "serve gm Query = (None, gm)"

text \<open>The handles issued by a sequence of requests, in the order of issue.\<close>

fun issued :: "GraphManager \<Rightarrow> request list \<Rightarrow> u64 list" where
  "issued gm [] = []"
| "issued gm (r # rs) =
     (case serve gm r of
        (None, gm') \<Rightarrow> issued gm' rs
      | (Some h, gm') \<Rightarrow> h # issued gm' rs)"

fun serve_all :: "GraphManager \<Rightarrow> request list \<Rightarrow> GraphManager" where
  "serve_all gm [] = gm"
| "serve_all gm (r # rs) = serve_all (snd (serve gm r)) rs"

section \<open>Directional neighbour queries (Algo/Graph.hpp, lines 421-485)\<close>

text \<open>
  Loop counters and node numbers below \<open>n\<close> are kept as natural numbers. A row pointer
  \<^verbatim>\<open>mat.raw() + node * n\<close> is the buffer at the 32-bit product \<^verbatim>\<open>node * n\<close>, and
  \<^verbatim>\<open>row[j]\<close> adds \<open>j\<close> to it as a pointer offset; \<^verbatim>\<open>data[i * n + node]\<close> is indexed by
  a 32-bit sum, which is \<open>cell\<close>.
\<close>

definition NO_EDGE :: u16 where
  "NO_EDGE = 0"

definition row_at :: "AdjMat \<Rightarrow> u32 \<Rightarrow> nat \<Rightarrow> u16" where
  "row_at mat node j = mat_data mat ! (unat (node * mat_n mat) + j)"

definition get_from :: "AdjMat \<Rightarrow> u32 \<Rightarrow> exception + nat list" where
  "get_from mat node =
     (if mat_n mat \<le> node then Inl (out_of_range ''Node index out of bounds'')
      else Inr (fold (\<lambda>j result.
                  if j = unat node then result
                  else if row_at mat node j = NO_EDGE then result
                  else result @ [j])
                [0..<unat (mat_n mat)] []))"

definition get_to :: "AdjMat \<Rightarrow> u32 \<Rightarrow> exception + nat list" where
  "get_to mat node =
     (if mat_n mat \<le> node then Inl (out_of_range ''Node index out of bounds'')
      else Inr (fold (\<lambda>i result.
                  if i = unat node then result
                  else if mat_data mat ! cell mat (of_nat i) node = NO_EDGE then result
                  else result @ [i])
                [0..<unat (mat_n mat)] []))"

definition get_neighbours :: "AdjMat \<Rightarrow> u32 \<Rightarrow> bool \<Rightarrow> exception + nat list" where
  "get_neighbours mat node bi =
     (if mat_n mat \<le> node then Inl (out_of_range ''Node index out of bounds'')
      else Inr (fold (\<lambda>i result.
                  if i = unat node then result
                  else if bi then
                    (if row_at mat node i = NO_EDGE then result else result @ [i])
                  else
                    (if row_at mat node i = NO_EDGE \<and>
                        mat_data mat ! cell mat (of_nat i) node = NO_EDGE
                     then result else result @ [i]))
                [0..<unat (mat_n mat)] []))"

text \<open>A small matrix for the examples: 3 nodes, edges \<open>0 \<rightarrow> 1\<close> (weight 5) and \<open>2 \<rightarrow> 0\<close> (weight 1).\<close>

definition mat_three :: AdjMat where
  "mat_three = snd (set_edge (snd (set_edge (construct 3) 0 1 5)) 2 0 1)"

section \<open>Column accessor and triangle counting (Algo/Graph.hpp, lines 105-140 and 238-291)\<close>

text \<open>
  \<^verbatim>\<open>ColIter(base, stride, fixed_col, exclude)\<close> from \<^verbatim>\<open>begin()\<close> to \<^verbatim>\<open>end()\<close>: the
  \<open>stride\<close> values it yields, the excluded row replaced by the sentinel. Its offsets are
  \<^verbatim>\<open>size_t\<close> products of values below \<open>2^32\<close> and do not wrap.
\<close>

definition col_iter :: "u16 list \<Rightarrow> nat \<Rightarrow> nat \<Rightarrow> nat \<Rightarrow> u16 list" where
  "col_iter base stride col exclude =
     map (\<lambda>i. if i = exclude then NO_EDGE else base ! (i * stride + col)) [0..<stride]"

text \<open>
  The two \<^verbatim>\<open>std::count_if\<close> calls of \<^verbatim>\<open>count_triangles\<close>. In this function \<open>n\<close>, \<open>i\<close>,
  \<open>j\<close> and \<open>k\<close> are \<^verbatim>\<open>uint64_t\<close>, so the row offsets \<^verbatim>\<open>i * n\<close> are exact; the counter
  \<open>k\<close> of the lambda runs along with the range.
\<close>

definition tri_row_scan :: "u16 list \<Rightarrow> nat \<Rightarrow> nat \<Rightarrow> nat \<Rightarrow> nat" where
  "tri_row_scan data n i j =
     length (filter (\<lambda>k. data ! (i * n + k) \<noteq> NO_EDGE \<and> data ! (j * n + k) \<noteq> NO_EDGE)
               [Suc j..<n])"

definition tri_col_scan :: "u16 list \<Rightarrow> nat \<Rightarrow> nat \<Rightarrow> nat \<Rightarrow> nat" where
  "tri_col_scan data n i j =
     length (filter (\<lambda>(k, v_k_i).
                if k = i \<or> k = j then False
                else data ! (j * n + k) \<noteq> NO_EDGE \<and> v_k_i \<noteq> NO_EDGE)
               (zip [0..<n] (col_iter data n i i)))"

text \<open>
  The value of \<^verbatim>\<open>count\<close> when the loops are left: \<^verbatim>\<open>count\<close> is \<^verbatim>\<open>uint64_t\<close>, each
  \<^verbatim>\<open>+=\<close> is an addition modulo \<open>2^64\<close>. \<^verbatim>\<open>mat(i, j)\<close> narrows \<open>i\<close> and \<open>j\<close> to 32 bits
  and goes through the checked read, whose checks hold for \<open>i, j < n\<close>.
\<close>

definition scan_triangles :: "AdjMat \<Rightarrow> bool \<Rightarrow> nat" where
  "scan_triangles mat directed =
     (let n = unat (mat_n mat); data = mat_data mat
      in if \<not> directed then
           fold (\<lambda>i. fold (\<lambda>j count.
                   if mat_data mat ! cell mat (of_nat i) (of_nat j) = NO_EDGE then count
                   else (count + tri_row_scan data n i j) mod 2 ^ 64)
                 [Suc i..<n])
             [0..<n] 0
         else
           fold (\<lambda>i. fold (\<lambda>j count.
                   if i = j then count
                   else if mat_data mat ! cell mat (of_nat i) (of_nat j) = NO_EDGE then count
                   else (count + tri_col_scan data n i j) mod 2 ^ 64)
                 [0..<n])
             [0..<n] 0)"

definition count_triangles :: "AdjMat \<Rightarrow> bool \<Rightarrow> nat" where
  "count_triangles mat directed =
     (if \<not> directed then scan_triangles mat False else scan_triangles mat True div 3)"

text \<open>Entry \<open>(i, j)\<close> of the matrix is non-sentinel.\<close>

definition adjacent :: "AdjMat \<Rightarrow> nat \<Rightarrow> nat \<Rightarrow> bool" where
  "adjacent mat i j = (case read mat (of_nat i) (of_nat j) of Inl e \<Rightarrow> False | Inr w \<Rightarrow> w \<noteq> NO_EDGE)"

text \<open>
  The index triples \<open>i < j < k\<close> whose upper-triangle entries are all present; the ordered
  triples of distinct nodes with \<open>i \<rightarrow> j \<rightarrow> k \<rightarrow> i\<close> (what the directed scan meets); and the
  directed 3-cycles, each named by its rotation that starts at its least node.
\<close>

definition upper_triangles :: "AdjMat \<Rightarrow> (nat \<times> nat \<times> nat) set" where
  "upper_triangles mat =
     {(i, j, k). i < j \<and> j < k \<and> k < unat (mat_n mat) \<and>
                 adjacent mat i j \<and> adjacent mat i k \<and> adjacent mat j k}"

definition cycle_visits :: "AdjMat \<Rightarrow> (nat \<times> nat \<times> nat) set" where
  "cycle_visits mat =
     {(i, j, k). i < unat (mat_n mat) \<and> j < unat (mat_n mat) \<and> k < unat (mat_n mat) \<and>
                 i \<noteq> j \<and> k \<noteq> i \<and> k \<noteq> j \<and>
                 adjacent mat i j \<and> adjacent mat j k \<and> adjacent mat k i}"

definition directed_cycles :: "AdjMat \<Rightarrow> (nat \<times> nat \<times> nat) set" where
  "directed_cycles mat = {(i, j, k). (i, j, k) \<in> cycle_visits mat \<and> i < j \<and> i < k}"

text \<open>Example: the triangle \<open>0 - 1 - 2\<close> written with \<^verbatim>\<open>bi_set\<close> (scenario B of the specification).\<close>

definition mat_triangle :: AdjMat where
  "mat_triangle = snd (bi_set (snd (bi_set (snd (bi_set (construct 3) 0 1 1)) 1 2 1)) 2 0 1)"

text \<open>
  The buffer entry of \<open>(i, j)\<close> where the row offset is exact, and the rotation of a triple
  to its next starting node.
\<close>

definition raw_edge :: "AdjMat \<Rightarrow> nat \<Rightarrow> nat \<Rightarrow> bool" where
  "raw_edge mat i j = (mat_data mat ! (i * unat (mat_n mat) + j) \<noteq> NO_EDGE)"

definition rot :: "nat \<times> nat \<times> nat \<Rightarrow> nat \<times> nat \<times> nat" where
  "rot t = (case t of (i, j, k) \<Rightarrow> (j, k, i))"

section \<open>Shortest paths (Algo/Graph.hpp, lines 294-338)\<close>

text \<open>\<^verbatim>\<open>static constexpr int32_t INF = std::numeric_limits<int32_t>::max();\<close>\<close>

definition INF32 :: int where
  "INF32 = 2147483647"

text \<open>
  Distances are \<^verbatim>\<open>int32_t\<close>, kept as integers; \<open>int32\<close> is the value a 32-bit
  two's-complement register holds after an addition.
\<close>

definition int32 :: "int \<Rightarrow> int" where
  "int32 x = (x + 2147483648) mod 4294967296 - 2147483648"

text \<open>
  \<^verbatim>\<open>mat(u, v)\<close> inside the loops, where \<open>u, v < n\<close> and the bounds check of the read holds.
\<close>

definition mat_at :: "AdjMat \<Rightarrow> nat \<Rightarrow> nat \<Rightarrow> u16" where
  "mat_at mat u v = mat_data mat ! cell mat (of_nat u) (of_nat v)"

text \<open>The body of the inner \<^verbatim>\<open>for\<close> of the breadth-first search, and one turn of its \<^verbatim>\<open>while\<close>.\<close>

definition bfs_relax :: "AdjMat \<Rightarrow> nat \<Rightarrow> nat \<Rightarrow> int list \<times> nat list \<Rightarrow> int list \<times> nat list" where
  "bfs_relax mat u v s =
     (case s of (dst, q) \<Rightarrow>
        if u = v then (dst, q)
        else if mat_at mat u v \<noteq> NO_EDGE \<and> dst ! v = INF32
        then (dst[v := int32 (dst ! u + 1)], q @ [v])
        else (dst, q))"

definition bfs_step :: "AdjMat \<Rightarrow> int list \<times> nat list \<Rightarrow> int list \<times> nat list" where
  "bfs_step mat s =
     (case s of (dst, q) \<Rightarrow>
        fold (bfs_relax mat (hd q)) [0..<unat (mat_n mat)] (dst, tl q))"

text \<open>
  \<^verbatim>\<open>std::priority_queue<Node, vector<Node>, std::greater<>>\<close>: the queue is the collection
  of its entries, \<^verbatim>\<open>top()\<close> is the least pair (distance first, then node), \<^verbatim>\<open>pop()\<close>
  removes it.
\<close>

definition pair_less :: "int \<times> nat \<Rightarrow> int \<times> nat \<Rightarrow> bool" where
  "pair_less a b = (fst a < fst b \<or> (fst a = fst b \<and> snd a < snd b))"

definition pq_top :: "(int \<times> nat) list \<Rightarrow> int \<times> nat" where
  "pq_top pq = fold (\<lambda>x m. if pair_less x m then x else m) (tl pq) (hd pq)"

definition pq_pop :: "(int \<times> nat) list \<Rightarrow> (int \<times> nat) list" where
  "pq_pop pq = remove1 (pq_top pq) pq"

text \<open>The body of the inner \<^verbatim>\<open>for\<close> of Dijkstra's algorithm, and one turn of its \<^verbatim>\<open>while\<close>.\<close>

definition dij_relax ::
  "AdjMat \<Rightarrow> nat \<Rightarrow> nat \<Rightarrow> int list \<times> (int \<times> nat) list \<Rightarrow> int list \<times> (int \<times> nat) list" where
  "dij_relax mat u v s =
     (case s of (dst, pq) \<Rightarrow>
        if u = v then (dst, pq)
        else if mat_at mat u v = NO_EDGE then (dst, pq)
        else let alt = int32 (dst ! u + uint (mat_at mat u v))
             in if alt < dst ! v then (dst[v := alt], pq @ [(alt, v)]) else (dst, pq))"

definition dij_step ::
  "AdjMat \<Rightarrow> int list \<times> (int \<times> nat) list \<Rightarrow> int list \<times> (int \<times> nat) list" where
  "dij_step mat s =
     (case s of (dst, pq) \<Rightarrow>
        (case pq_top pq of (d, u) \<Rightarrow>
           if d > dst ! u then (dst, pq_pop pq)
           else fold (dij_relax mat u) [0..<unat (mat_n mat)] (dst, pq_pop pq)))"

text \<open>
  The function. A \<^verbatim>\<open>while\<close> that does not end gives \<open>None\<close>; otherwise the result is the
  exception or the distance vector.
\<close>

definition shortest_path :: "AdjMat \<Rightarrow> u32 \<Rightarrow> bool \<Rightarrow> (exception + int list) option" where
  "shortest_path mat start weighed =
     (if mat_n mat \<le> start then Some (Inl (out_of_range ''Node index out of bounds''))
      else let dst = (replicate (unat (mat_n mat)) INF32)[unat start := 0]
           in if \<not> weighed then
                map_option (\<lambda>s. Inr (fst s))
                  (while_option (\<lambda>s. snd s \<noteq> []) (bfs_step mat) (dst, [unat start]))
              else
                map_option (\<lambda>s. Inr (fst s))
                  (while_option (\<lambda>s. snd s \<noteq> []) (dij_step mat) (dst, [(0, unat start)])))"

text \<open>
  The graph a matrix stands for: an arc \<open>u \<rightarrow> v\<close> is a non-sentinel off-diagonal entry, its
  cost is the entry. \<open>walk c mat s v d\<close>: some walk from \<open>s\<close> to \<open>v\<close> has total cost \<open>d\<close>,
  where \<open>c\<close> prices an arc.
\<close>

definition arc :: "AdjMat \<Rightarrow> nat \<Rightarrow> nat \<Rightarrow> bool" where
  "arc mat u v = (u < unat (mat_n mat) \<and> v < unat (mat_n mat) \<and> u \<noteq> v \<and> mat_at mat u v \<noteq> NO_EDGE)"

definition weight :: "AdjMat \<Rightarrow> nat \<Rightarrow> nat \<Rightarrow> int" where
  "weight mat u v = uint (mat_at mat u v)"

definition unit_cost :: "nat \<Rightarrow> nat \<Rightarrow> int" where
  "unit_cost u v = 1"

inductive walk :: "(nat \<Rightarrow> nat \<Rightarrow> int) \<Rightarrow> AdjMat \<Rightarrow> nat \<Rightarrow> nat \<Rightarrow> int \<Rightarrow> bool"
  for c :: "nat \<Rightarrow> nat \<Rightarrow> int" and mat :: AdjMat and s :: nat where
  walk_start: "walk c mat s s 0"
| walk_arc: "walk c mat s u d \<Longrightarrow> arc mat u v \<Longrightarrow> walk c mat s v (d + c u v)"


text \<open>Every stored weight is at most \<open>W\<close>; every stored weight is \<open>0\<close> or \<open>1\<close>.\<close>

definition weights_le :: "AdjMat \<Rightarrow> int \<Rightarrow> bool" where
  "weights_le mat W = (\<forall>x \<in> set (mat_data mat). uint x \<le> W)"

definition unit_weights :: "AdjMat \<Rightarrow> bool" where
  "unit_weights mat = (\<forall>x \<in> set (mat_data mat). x = NO_EDGE \<or> x = 1)"

text \<open>Example: the path \<open>0 - 1 - 2 - 3\<close> with unit weights (scenario A of the specification).\<close>

definition mat_path :: AdjMat where
  "mat_path = snd (bi_set (snd (bi_set (snd (bi_set (construct 4) 0 1 1)) 1 2 1)) 2 3 1)"

text \<open>
  What the two loops keep true. \<open>seen\<close>: the nodes with a distance; \<open>bounded\<close>: distances
  lie in \<open>0 .. INT32_MAX\<close> and a known one is at most \<open>(number of seen nodes - 1) * W\<close>;
  \<open>sound\<close>: a known distance is the cost of some walk from the start; \<open>settled\<close>: no arc out
  of \<open>x\<close> can improve its head. \<open>potential\<close> decreases with every turn of a \<^verbatim>\<open>while\<close>.
\<close>

definition seen :: "nat \<Rightarrow> int list \<Rightarrow> nat set" where
  "seen N dst = {y. y < N \<and> dst ! y \<noteq> INF32}"

definition bounded :: "nat \<Rightarrow> int \<Rightarrow> int list \<Rightarrow> bool" where
  "bounded N W dst \<longleftrightarrow>
     length dst = N \<and> (\<forall>x<N. 0 \<le> dst ! x \<and> dst ! x \<le> INF32) \<and>
     (\<forall>x<N. dst ! x \<noteq> INF32 \<longrightarrow> dst ! x \<le> (int (card (seen N dst)) - 1) * W)"

definition sound :: "(nat \<Rightarrow> nat \<Rightarrow> int) \<Rightarrow> AdjMat \<Rightarrow> nat \<Rightarrow> int list \<Rightarrow> bool" where
  "sound c mat s dst \<longleftrightarrow>
     (\<forall>x < unat (mat_n mat). dst ! x \<noteq> INF32 \<longrightarrow> walk c mat s x (dst ! x))"

definition settled :: "(nat \<Rightarrow> nat \<Rightarrow> int) \<Rightarrow> AdjMat \<Rightarrow> int list \<Rightarrow> nat \<Rightarrow> bool" where
  "settled c mat dst x \<longleftrightarrow>
     (\<forall>y. arc mat x y \<longrightarrow> dst ! y \<noteq> INF32 \<and> dst ! y \<le> dst ! x + c x y)"

definition potential :: "int list \<times> 'a list \<Rightarrow> nat" where
  "potential st = 2 * sum_list (map nat (fst st)) + length (snd st)"

definition bfs_mid :: "AdjMat \<Rightarrow> nat \<Rightarrow> nat \<Rightarrow> int list \<times> nat list \<Rightarrow> bool" where
  "bfs_mid mat s u st \<longleftrightarrow>
     (case st of (dst, q) \<Rightarrow>
        bounded (unat (mat_n mat)) 1 dst \<and> sound unit_cost mat s dst \<and>
        s < unat (mat_n mat) \<and> dst ! s = 0 \<and>
        u < unat (mat_n mat) \<and> dst ! u \<noteq> INF32 \<and>
        (\<forall>x\<in>set q. x < unat (mat_n mat) \<and> dst ! x \<noteq> INF32 \<and> dst ! u \<le> dst ! x) \<and>
        sorted_wrt (\<lambda>x y. dst ! x \<le> dst ! y) q \<and>
        (\<forall>x < unat (mat_n mat). dst ! x \<noteq> INF32 \<longrightarrow> dst ! x \<le> dst ! u + 1) \<and>
        (\<forall>x < unat (mat_n mat). x \<noteq> u \<longrightarrow> dst ! x \<noteq> INF32 \<longrightarrow>
            x \<in> set q \<or> settled unit_cost mat dst x))"

definition bfs_inv :: "AdjMat \<Rightarrow> nat \<Rightarrow> int list \<times> nat list \<Rightarrow> bool" where
  "bfs_inv mat s st \<longleftrightarrow>
     (case st of (dst, q) \<Rightarrow>
        bounded (unat (mat_n mat)) 1 dst \<and> sound unit_cost mat s dst \<and>
        s < unat (mat_n mat) \<and> dst ! s = 0 \<and>
        (\<forall>x\<in>set q. x < unat (mat_n mat) \<and> dst ! x \<noteq> INF32) \<and>
        sorted_wrt (\<lambda>x y. dst ! x \<le> dst ! y) q \<and>
        (q \<noteq> [] \<longrightarrow> (\<forall>x < unat (mat_n mat). dst ! x \<noteq> INF32 \<longrightarrow> dst ! x \<le> dst ! hd q + 1)) \<and>
        (\<forall>x < unat (mat_n mat). dst ! x \<noteq> INF32 \<longrightarrow>
            x \<in> set q \<or> settled unit_cost mat dst x))"

definition dij_mid ::
  "AdjMat \<Rightarrow> int \<Rightarrow> nat \<Rightarrow> nat \<Rightarrow> int list \<times> (int \<times> nat) list \<Rightarrow> bool" where
  "dij_mid mat W s u st \<longleftrightarrow>
     (case st of (dst, pq) \<Rightarrow>
        bounded (unat (mat_n mat)) W dst \<and> sound (weight mat) mat s dst \<and>
        s < unat (mat_n mat) \<and> dst ! s = 0 \<and>
        u < unat (mat_n mat) \<and> dst ! u \<noteq> INF32 \<and>
        (\<forall>e\<in>set pq. snd e < unat (mat_n mat) \<and> dst ! snd e \<le> fst e \<and> fst e < INF32) \<and>
        (\<forall>x < unat (mat_n mat). x \<noteq> u \<longrightarrow> dst ! x \<noteq> INF32 \<longrightarrow>
            (dst ! x, x) \<in> set pq \<or> settled (weight mat) mat dst x))"

definition dij_inv :: "AdjMat \<Rightarrow> int \<Rightarrow> nat \<Rightarrow> int list \<times> (int \<times> nat) list \<Rightarrow> bool" where
  "dij_inv mat W s st \<longleftrightarrow>
     (case st of (dst, pq) \<Rightarrow>
        bounded (unat (mat_n mat)) W dst \<and> sound (weight mat) mat s dst \<and>
        s < unat (mat_n mat) \<and> dst ! s = 0 \<and>
        (\<forall>e\<in>set pq. snd e < unat (mat_n mat) \<and> dst ! snd e \<le> fst e \<and> fst e < INF32) \<and>
        (\<forall>x < unat (mat_n mat). dst ! x \<noteq> INF32 \<longrightarrow>
            (dst ! x, x) \<in> set pq \<or> settled (weight mat) mat dst x))"

section \<open>Betweenness centrality (Algo/Graph.hpp, lines 341-417)\<close>

text \<open>
  The arithmetic of \<^verbatim>\<open>double\<close> is a parameter: the constants \<open>0.0\<close>, \<open>1.0\<close>, \<open>2.0\<close>, the
  three operations the function uses, and the conversion from \<^verbatim>\<open>uint32_t\<close>. Nothing
  below depends on how they round.
\<close>

record 'd fp_ops =
  fp_zero :: 'd
  fp_one :: 'd
  fp_two :: 'd
  fp_add :: "'d \<Rightarrow> 'd \<Rightarrow> 'd"
  fp_mul :: "'d \<Rightarrow> 'd \<Rightarrow> 'd"
  fp_div :: "'d \<Rightarrow> 'd \<Rightarrow> 'd"
  fp_of_u32 :: "nat \<Rightarrow> 'd"

text \<open>
  The vectors of one source: \<^verbatim>\<open>dist\<close>, \<^verbatim>\<open>preds\<close>, \<^verbatim>\<open>sigma\<close> (\<^verbatim>\<open>uint32_t\<close>, kept as
  naturals with the wrap written out) and the \<^verbatim>\<open>std::stack\<close>, its top first.
\<close>

record trav =
  t_dist :: "int list"
  t_preds :: "nat list list"
  t_sigma :: "nat list"
  t_stack :: "nat list"

definition trav_init :: "nat \<Rightarrow> nat \<Rightarrow> trav" where
  "trav_init n s =
     \<lparr>t_dist = (replicate n INF32)[s := 0], t_preds = replicate n [],
      t_sigma = (replicate n 0)[s := 1], t_stack = []\<rparr>"

text \<open>Unweighted: the body of the inner \<^verbatim>\<open>for\<close> and one turn of the \<^verbatim>\<open>while\<close>.\<close>

definition bc_bfs_relax :: "AdjMat \<Rightarrow> nat \<Rightarrow> nat \<Rightarrow> trav \<times> nat list \<Rightarrow> trav \<times> nat list" where
  "bc_bfs_relax mat v w st =
     (case st of (t, q) \<Rightarrow>
        if v = w then (t, q)
        else if mat_at mat v w = NO_EDGE then (t, q)
        else
          (case (if t_dist t ! w = INF32
                 then (t\<lparr>t_dist := (t_dist t)[w := int32 (t_dist t ! v + 1)]\<rparr>, q @ [w])
                 else (t, q)) of
             (t1, q1) \<Rightarrow>
               if t_dist t1 ! w = int32 (t_dist t1 ! v + 1)
               then (t1\<lparr>t_sigma := (t_sigma t1)[w := (t_sigma t1 ! w + t_sigma t1 ! v) mod 2 ^ 32],
                        t_preds := (t_preds t1)[w := t_preds t1 ! w @ [v]]\<rparr>, q1)
               else (t1, q1)))"

definition bc_bfs_step :: "AdjMat \<Rightarrow> trav \<times> nat list \<Rightarrow> trav \<times> nat list" where
  "bc_bfs_step mat st =
     (case st of (t, q) \<Rightarrow>
        fold (bc_bfs_relax mat (hd q)) [0..<unat (mat_n mat)]
          (t\<lparr>t_stack := hd q # t_stack t\<rparr>, tl q))"

text \<open>Weighted: the body of the inner \<^verbatim>\<open>for\<close> and one turn of the \<^verbatim>\<open>while\<close>.\<close>

definition bc_dij_relax ::
  "AdjMat \<Rightarrow> nat \<Rightarrow> nat \<Rightarrow> trav \<times> (int \<times> nat) list \<Rightarrow> trav \<times> (int \<times> nat) list" where
  "bc_dij_relax mat v w st =
     (case st of (t, pq) \<Rightarrow>
        if v = w then (t, pq)
        else if mat_at mat v w = NO_EDGE then (t, pq)
        else let alt = int32 (t_dist t ! v + uint (mat_at mat v w))
             in if alt < t_dist t ! w
                then (t\<lparr>t_dist := (t_dist t)[w := alt],
                        t_sigma := (t_sigma t)[w := t_sigma t ! v],
                        t_preds := (t_preds t)[w := [v]]\<rparr>, pq @ [(alt, w)])
                else if alt = t_dist t ! w
                then (t\<lparr>t_sigma := (t_sigma t)[w := (t_sigma t ! w + t_sigma t ! v) mod 2 ^ 32],
                        t_preds := (t_preds t)[w := t_preds t ! w @ [v]]\<rparr>, pq)
                else (t, pq))"

definition bc_dij_step ::
  "AdjMat \<Rightarrow> trav \<times> (int \<times> nat) list \<Rightarrow> trav \<times> (int \<times> nat) list" where
  "bc_dij_step mat st =
     (case st of (t, pq) \<Rightarrow>
        (case pq_top pq of (d, v) \<Rightarrow>
           if d > t_dist t ! v then (t, pq_pop pq)
           else fold (bc_dij_relax mat v) [0..<unat (mat_n mat)]
                  (t\<lparr>t_stack := v # t_stack t\<rparr>, pq_pop pq)))"

text \<open>The traversal from source \<open>s\<close>: what the vectors hold when the \<^verbatim>\<open>while\<close> is left.\<close>

definition traverse :: "AdjMat \<Rightarrow> bool \<Rightarrow> nat \<Rightarrow> trav option" where
  "traverse mat weighed s =
     (if \<not> weighed then
        map_option fst
          (while_option (\<lambda>st. snd st \<noteq> []) (bc_bfs_step mat)
             (trav_init (unat (mat_n mat)) s, [s]))
      else
        map_option fst
          (while_option (\<lambda>st. snd st \<noteq> []) (bc_dij_step mat)
             (trav_init (unat (mat_n mat)) s, [(0, s)])))"

text \<open>
  One turn of \<^verbatim>\<open>while (!stack.empty())\<close> for the popped node \<open>w\<close>, on the pair
  (\<^verbatim>\<open>delta\<close>, \<^verbatim>\<open>centrality\<close>); the loop itself runs down the stack.
\<close>

definition pop_node ::
  "'d fp_ops \<Rightarrow> trav \<Rightarrow> nat \<Rightarrow> nat \<Rightarrow> 'd list \<times> 'd list \<Rightarrow> 'd list \<times> 'd list" where
  "pop_node fp t s w dc =
     (case dc of (delta, centrality) \<Rightarrow>
        (case fold (\<lambda>v delta.
                 delta[v := fp_add fp (delta ! v)
                              (fp_mul fp
                                 (fp_div fp (fp_of_u32 fp (t_sigma t ! v)) (fp_of_u32 fp (t_sigma t ! w)))
                                 (fp_add fp (fp_one fp) (delta ! w)))])
               (t_preds t ! w) delta of
           delta' \<Rightarrow>
             if w \<noteq> s then (delta', centrality[w := fp_add fp (centrality ! w) (delta' ! w)])
             else (delta', centrality)))"

definition accumulate :: "'d fp_ops \<Rightarrow> nat \<Rightarrow> trav \<Rightarrow> nat \<Rightarrow> 'd list \<Rightarrow> 'd list \<times> 'd list" where
  "accumulate fp n t s centrality =
     fold (pop_node fp t s) (t_stack t) (replicate n (fp_zero fp), centrality)"

text \<open>The body of the loop over the sources, and the function.\<close>

definition source_pass ::
  "'d fp_ops \<Rightarrow> AdjMat \<Rightarrow> bool \<Rightarrow> nat \<Rightarrow> 'd list \<Rightarrow> 'd list option" where
  "source_pass fp mat weighed s centrality =
     map_option (\<lambda>t. snd (accumulate fp (unat (mat_n mat)) t s centrality)) (traverse mat weighed s)"

definition all_sources :: "'d fp_ops \<Rightarrow> AdjMat \<Rightarrow> bool \<Rightarrow> 'd list option" where
  "all_sources fp mat weighed =
     fold (\<lambda>s acc. Option.bind acc (source_pass fp mat weighed s)) [0..<unat (mat_n mat)]
       (Some (replicate (unat (mat_n mat)) (fp_zero fp)))"

definition betweenness_centrality :: "'d fp_ops \<Rightarrow> AdjMat \<Rightarrow> bool \<Rightarrow> 'd list option" where
  "betweenness_centrality fp mat weighed =
     map_option (map (\<lambda>val. fp_div fp val (fp_two fp))) (all_sources fp mat weighed)"

text \<open>Exact arithmetic, for the examples.\<close>

definition real_ops :: "real fp_ops" where
  "real_ops = \<lparr>fp_zero = 0, fp_one = 1, fp_two = 2, fp_add = (+), fp_mul = (*), fp_div = (/),
               fp_of_u32 = real\<rparr>"

text \<open>Example: the directed chain \<open>0 \<rightarrow> 1 \<rightarrow> 2\<close>, unit weights.\<close>

definition mat_chain :: AdjMat where
  "mat_chain = snd (set_edge (snd (set_edge (construct 3) 0 1 1)) 1 2 1)"

text \<open>
  What the traversals keep true beyond the facts of the plain searches: the stack is
  duplicate-free and ordered by distance (the farthest node on top), it holds settled
  nodes only, and every recorded predecessor is strictly nearer than its node.
\<close>

definition proj :: "trav \<times> 'a \<Rightarrow> int list \<times> 'a" where
  "proj st = (t_dist (fst st), snd st)"

definition stack_sorted :: "int list \<Rightarrow> nat list \<Rightarrow> bool" where
  "stack_sorted dst stack = sorted_wrt (\<lambda>a b. dst ! b \<le> dst ! a) stack"

definition stack_ok :: "nat \<Rightarrow> trav \<Rightarrow> bool" where
  "stack_ok N t \<longleftrightarrow>
     length (t_dist t) = N \<and> length (t_preds t) = N \<and>
     distinct (t_stack t) \<and> set (t_stack t) \<subseteq> {..<N} \<and>
     stack_sorted (t_dist t) (t_stack t) \<and>
     (\<forall>w<N. \<forall>v\<in>set (t_preds t ! w). v < N \<and> t_dist t ! v < t_dist t ! w)"

definition bc_bfs_mid :: "AdjMat \<Rightarrow> nat \<Rightarrow> nat \<Rightarrow> trav \<times> nat list \<Rightarrow> bool" where
  "bc_bfs_mid mat s v st \<longleftrightarrow>
     (case st of (t, q) \<Rightarrow>
        bfs_mid mat s v (t_dist t, q) \<and> length (t_preds t) = unat (mat_n mat) \<and>
        distinct (t_stack t @ q) \<and> stack_sorted (t_dist t) (t_stack t) \<and>
        (\<forall>x\<in>set (t_stack t). x < unat (mat_n mat) \<and> t_dist t ! x \<noteq> INF32 \<and>
                               t_dist t ! x \<le> t_dist t ! v) \<and>
        (\<forall>w < unat (mat_n mat). \<forall>u\<in>set (t_preds t ! w).
            u < unat (mat_n mat) \<and> t_dist t ! u \<noteq> INF32 \<and> t_dist t ! w \<noteq> INF32 \<and>
            t_dist t ! u < t_dist t ! w))"

definition bc_bfs_inv :: "AdjMat \<Rightarrow> nat \<Rightarrow> trav \<times> nat list \<Rightarrow> bool" where
  "bc_bfs_inv mat s st \<longleftrightarrow>
     (case st of (t, q) \<Rightarrow>
        bfs_inv mat s (t_dist t, q) \<and> length (t_preds t) = unat (mat_n mat) \<and>
        distinct (t_stack t @ q) \<and> stack_sorted (t_dist t) (t_stack t) \<and>
        (\<forall>x\<in>set (t_stack t). x < unat (mat_n mat) \<and> t_dist t ! x \<noteq> INF32 \<and>
                               (\<forall>y\<in>set q. t_dist t ! x \<le> t_dist t ! y)) \<and>
        (\<forall>w < unat (mat_n mat). \<forall>u\<in>set (t_preds t ! w).
            u < unat (mat_n mat) \<and> t_dist t ! u \<noteq> INF32 \<and> t_dist t ! w \<noteq> INF32 \<and>
            t_dist t ! u < t_dist t ! w))"

definition bc_dij_mid ::
  "AdjMat \<Rightarrow> int \<Rightarrow> nat \<Rightarrow> nat \<Rightarrow> trav \<times> (int \<times> nat) list \<Rightarrow> bool" where
  "bc_dij_mid mat W s v st \<longleftrightarrow>
     (case st of (t, pq) \<Rightarrow>
        dij_mid mat W s v (t_dist t, pq) \<and> length (t_preds t) = unat (mat_n mat) \<and>
        distinct pq \<and> distinct (t_stack t) \<and> stack_sorted (t_dist t) (t_stack t) \<and>
        v \<in> set (t_stack t) \<and>
        (\<forall>x\<in>set (t_stack t). x < unat (mat_n mat) \<and> t_dist t ! x \<noteq> INF32 \<and>
            t_dist t ! x \<le> t_dist t ! v \<and>
            (\<forall>e\<in>set pq. t_dist t ! x \<le> fst e \<and> (snd e = x \<longrightarrow> t_dist t ! x < fst e))) \<and>
        (\<forall>w < unat (mat_n mat). \<forall>u\<in>set (t_preds t ! w).
            u \<in> set (t_stack t) \<and> t_dist t ! w \<noteq> INF32 \<and> t_dist t ! u < t_dist t ! w))"

definition bc_dij_inv ::
  "AdjMat \<Rightarrow> int \<Rightarrow> nat \<Rightarrow> trav \<times> (int \<times> nat) list \<Rightarrow> bool" where
  "bc_dij_inv mat W s st \<longleftrightarrow>
     (case st of (t, pq) \<Rightarrow>
        dij_inv mat W s (t_dist t, pq) \<and> length (t_preds t) = unat (mat_n mat) \<and>
        distinct pq \<and> distinct (t_stack t) \<and> stack_sorted (t_dist t) (t_stack t) \<and>
        (\<forall>x\<in>set (t_stack t). x < unat (mat_n mat) \<and> t_dist t ! x \<noteq> INF32 \<and>
            (\<forall>e\<in>set pq. t_dist t ! x \<le> fst e \<and> (snd e = x \<longrightarrow> t_dist t ! x < fst e))) \<and>
        (\<forall>w < unat (mat_n mat). \<forall>u\<in>set (t_preds t ! w).
            u \<in> set (t_stack t) \<and> t_dist t ! w \<noteq> INF32 \<and> t_dist t ! u < t_dist t ! w))"

text \<open>
  The expressions the function evaluates in \<^verbatim>\<open>double\<close>, left uninterpreted: constants,
  sums, products, quotients and converted \<^verbatim>\<open>uint32_t\<close> values.
\<close>

datatype fp_term = D_zero | D_one | D_two | D_add fp_term fp_term | D_mul fp_term fp_term
  | D_div fp_term fp_term | D_of_u32 nat

definition term_ops :: "fp_term fp_ops" where
  "term_ops = \<lparr>fp_zero = D_zero, fp_one = D_one, fp_two = D_two, fp_add = D_add, fp_mul = D_mul,
                fp_div = D_div, fp_of_u32 = D_of_u32\<rparr>"

text \<open>
  \<open>walks mat s k w\<close>: the number of walks from \<open>s\<close> to \<open>w\<close> with exactly \<open>k\<close> arcs in the
  graph of the matrix. When \<open>k\<close> is the unweighted distance of \<open>w\<close> this is the number of
  shortest paths from \<open>s\<close> to \<open>w\<close>, the quantity Brandes' algorithm calls \<open>sigma\<close>.
\<close>

fun walks :: "AdjMat \<Rightarrow> nat \<Rightarrow> nat \<Rightarrow> nat \<Rightarrow> nat" where
  "walks mat s 0 w = (if w = s then 1 else 0)"
| "walks mat s (Suc k) w =
     (\<Sum>v\<leftarrow>[0..<unat (mat_n mat)]. if arc mat v w then walks mat s k v else 0)"

text \<open>
  Example: 66 nodes in layers. Node \<open>0\<close>, then the 32 layers \<open>{2i - 1, 2i}\<close> for
  \<open>i = 1 .. 32\<close>, then node \<open>65\<close>; every node has an arc of weight \<open>1\<close> to every node of
  the next layer and there is no other arc. The matrix is \<^verbatim>\<open>AdjMat(66)\<close> after the 128
  calls \<^verbatim>\<open>set(u, v, 1)\<close>.
\<close>

definition layer_arcs :: "(nat \<times> nat) list" where
  "layer_arcs = [(u, v). u \<leftarrow> [0..<66], v \<leftarrow> [0..<66], (v + 1) div 2 = (u + 1) div 2 + 1]"

definition mat_layers :: AdjMat where
  "mat_layers =
     fold (\<lambda>(u, v) m. snd (set_edge m (of_nat u) (of_nat v) 1)) layer_arcs (construct 66)"

text \<open>
  The vectors of source \<open>0\<close> on this matrix, as the unweighted traversal leaves them:
  \<^verbatim>\<open>dist[w]\<close> is the layer of \<open>w\<close>, \<^verbatim>\<open>preds[w]\<close> the nodes of the layer before,
  \<^verbatim>\<open>sigma[w]\<close> is \<open>2^(layer - 1)\<close> except for \<^verbatim>\<open>sigma[65] = 0\<close>, and the stack holds
  \<open>65\<close> on top, down to \<open>0\<close>.
\<close>

definition layers_result :: trav where
  "layers_result =
     \<lparr>t_dist = map (\<lambda>w. int ((w + 1) div 2)) [0..<66],
      t_preds = map (\<lambda>w. filter (\<lambda>v. (w + 1) div 2 = (v + 1) div 2 + 1) [0..<66]) [0..<66],
      t_sigma = map (\<lambda>w. if w = 65 then 0 else 2 ^ ((w + 1) div 2 - 1)) [0..<66],
      t_stack = rev [0..<66]\<rparr>"

section \<open>Basic facts\<close>

lemma check_bounds_iff: "check_bounds m i \<longleftrightarrow> i < mat_n m"
  by (auto simp: check_bounds_def not_le)

lemma set_edge_n [simp]: "mat_n (snd (set_edge m i j w)) = mat_n m"
  by (simp add: set_edge_def)

lemma bi_set_n [simp]: "mat_n (snd (bi_set m i j w)) = mat_n m"
  by (simp add: bi_set_def)

lemma set_edge_length [simp]: "length (mat_data (snd (set_edge m i j w))) = length (mat_data m)"
  by (simp add: set_edge_def)

lemma bi_set_length [simp]: "length (mat_data (snd (bi_set m i j w))) = length (mat_data m)"
  by (simp add: bi_set_def)

lemma write_line_fail: "fst (write_line mat l bi) \<noteq> None \<Longrightarrow> snd (write_line mat l bi) = mat"
  by (auto simp: write_line_def set_edge_def bi_set_def split: if_splits)

section \<open>Error kinds of the writes\<close>

text \<open>
  C3, as the code has it: both writes fail with \<^verbatim>\<open>std::out_of_range\<close> carrying
  ``Index out of bounds'' when \<open>i \<ge> n\<close> or \<open>j \<ge> n\<close>, and, for in-range \<open>i = j\<close>, with the
  same exception class \<^verbatim>\<open>std::out_of_range\<close> carrying the different message
  ``Should not modify diagonal''. The two failures differ by message, not by kind; in both
  the matrix is returned as it was.
\<close>

theorem C3_write_errors:
  "(mat_n m \<le> i \<or> mat_n m \<le> j \<longrightarrow>
      set_edge m i j w = (Some (out_of_range ''Index out of bounds''), m) \<and>
      bi_set m i j w = (Some (out_of_range ''Index out of bounds''), m)) \<and>
   (i < mat_n m \<longrightarrow>
      set_edge m i i w = (Some (out_of_range ''Should not modify diagonal''), m) \<and>
      bi_set m i i w = (Some (out_of_range ''Should not modify diagonal''), m) \<and>
      is_out_of_range (out_of_range ''Should not modify diagonal'') \<and>
      out_of_range ''Should not modify diagonal'' \<noteq> out_of_range ''Index out of bounds'')"
  by (auto simp: set_edge_def bi_set_def check_bounds_def)

theorem C3_write_errors_witness:
  "set_edge (construct 3) 3 0 5 = (Some (out_of_range ''Index out of bounds''), construct 3) \<and>
   bi_set (construct 3) 1 1 5 = (Some (out_of_range ''Should not modify diagonal''), construct 3)"
proof -
  have a: "mat_n (construct 3) \<le> 3 \<or> mat_n (construct 3) \<le> 0"
    by (simp add: construct_def)
  have b: "(1::u32) < mat_n (construct 3)"
    by (simp add: construct_def word_less_nat_alt)
  from C3_write_errors [of "construct 3" 3 0 5] a
       C3_write_errors [of "construct 3" 1 1 5] b
  show ?thesis by blast
qed

text \<open>
  C3, as the claim words it, fails: a diagonal write on a 3-node matrix raises an exception
  of the out-of-range class.
\<close>

theorem C3_diagonal_counterexample:
  "fst (set_edge (construct 3) 1 1 5) = Some (out_of_range ''Should not modify diagonal'') \<and>
   fst (bi_set (construct 3) 1 1 5) = Some (out_of_range ''Should not modify diagonal'') \<and>
   is_out_of_range (out_of_range ''Should not modify diagonal'')"
  by (simp add: set_edge_def bi_set_def check_bounds_def construct_def word_le_nat_alt)

section \<open>Offsets inside a covered buffer\<close>

lemma index_bound:
  assumes "a < (N::nat)" "b < N"
  shows "a * N + b < N * N"
proof -
  have "a * N + b < Suc a * N" using assms by simp
  also have "\<dots> \<le> N * N" using assms by (intro mult_le_mono1) simp
  finally show ?thesis .
qed

lemma covered_sq: "covered m \<Longrightarrow> unat (mat_n m) * unat (mat_n m) < 2 ^ 32"
proof -
  assume "covered m"
  then have "unat (mat_n m) < 2 ^ 16" by (simp add: covered_def)
  then have "unat (mat_n m) * unat (mat_n m) < 2 ^ 16 * 2 ^ 16"
    by (intro mult_strict_mono) simp_all
  then show ?thesis by simp
qed

lemma cell_covered:
  assumes c: "covered m" and i: "i < mat_n m" and j: "j < mat_n m"
  shows "cell m i j = unat i * unat (mat_n m) + unat j"
proof -
  let ?N = "unat (mat_n m)"
  have a: "unat i < ?N" and b: "unat j < ?N" using i j by (simp_all add: word_less_nat_alt)
  have "unat i * ?N + unat j < 2 ^ 32"
    using index_bound [OF a b] covered_sq [OF c] by linarith
  moreover have "unat (i * mat_n m + j) = (unat i * ?N + unat j) mod 2 ^ 32"
    by (simp add: unat_word_ariths mod_add_left_eq)
  ultimately show ?thesis by (simp add: cell_def)
qed

lemma cell_in_buffer:
  assumes c: "covered m" and i: "i < mat_n m" and j: "j < mat_n m"
  shows "cell m i j < length (mat_data m)"
proof -
  have a: "unat i < unat (mat_n m)" and b: "unat j < unat (mat_n m)"
    using i j by (simp_all add: word_less_nat_alt)
  show ?thesis
    using index_bound [OF a b] c by (simp add: cell_covered [OF c i j] covered_def)
qed

lemma index_inj:
  assumes "b < (N::nat)" "d < N" "a * N + b = c * N + d"
  shows "a = c \<and> b = d"
proof -
  have "b = (a * N + b) mod N" using assms(1) by simp
  also have "\<dots> = (c * N + d) mod N" by (simp only: assms(3))
  also have "\<dots> = d" using assms(2) by simp
  finally have bd: "b = d" .
  with assms(3) have "a * N = c * N" by simp
  moreover have "0 < N" using assms(1) by simp
  ultimately have "a = c" by simp
  with bd show ?thesis by simp
qed

lemma cell_inj:
  assumes c: "covered m" and "i < mat_n m" "j < mat_n m" "k < mat_n m" "l < mat_n m"
    and eq: "cell m i j = cell m k l"
  shows "i = k \<and> j = l"
proof -
  have "unat j < unat (mat_n m)" "unat l < unat (mat_n m)"
    using assms by (simp_all add: word_less_nat_alt)
  then have "unat i = unat k \<and> unat j = unat l"
    using eq assms by (intro index_inj) (simp_all add: cell_covered)
  then show ?thesis by (simp add: word_unat_eq_iff)
qed

lemma covered_construct: "unat n < 2 ^ 16 \<Longrightarrow> covered (construct n)"
proof -
  assume n: "unat n < 2 ^ 16"
  then have "unat n * unat n < 2 ^ 16 * 2 ^ 16" by (intro mult_strict_mono) simp_all
  then have "unat (n * n) = unat n * unat n" by (simp add: unat_word_ariths)
  with n show ?thesis by (simp add: covered_def construct_def)
qed

lemma diagonal_zero_construct:
  assumes "unat n < 2 ^ 16"
  shows "diagonal_zero (construct n)"
  unfolding diagonal_zero_def
proof (intro allI impI)
  fix i assume i: "i < mat_n (construct n)"
  have "cell (construct n) i i < length (mat_data (construct n))"
    by (rule cell_in_buffer [OF covered_construct [OF assms] i i])
  then have "mat_data (construct n) ! cell (construct n) i i = 0"
    by (simp add: construct_def)
  with i show "read (construct n) i i = Inr 0"
    by (simp add: read_def check_bounds_iff)
qed

lemma covered_set_edge: "covered m \<Longrightarrow> covered (snd (set_edge m i j w))"
  by (simp add: covered_def)

lemma covered_bi_set: "covered m \<Longrightarrow> covered (snd (bi_set m i j w))"
  by (simp add: covered_def)

lemma cell_same_n: "mat_n m' = mat_n m \<Longrightarrow> cell m' = cell m"
  by (simp add: cell_def fun_eq_iff)

lemma diagonal_zero_set_edge:
  assumes c: "covered m" and d: "diagonal_zero m"
  shows "diagonal_zero (snd (set_edge m i j w))"
  unfolding diagonal_zero_def
proof (intro allI impI)
  fix k assume "k < mat_n (snd (set_edge m i j w))"
  then have k: "k < mat_n m" by simp
  from d k have old: "mat_data m ! cell m k k = 0"
    by (simp add: diagonal_zero_def read_def check_bounds_iff)
  show "read (snd (set_edge m i j w)) k k = Inr 0"
  proof (cases "i < mat_n m \<and> j < mat_n m \<and> i \<noteq> j")
    case True
    then have "cell m i j \<noteq> cell m k k" using cell_inj [OF c _ _ k k, of i j] by auto
    with True k old show ?thesis
      by (simp add: set_edge_def read_def check_bounds_iff cell_def)
  next
    case False
    with k old show ?thesis
      by (auto simp: set_edge_def read_def check_bounds_iff)
  qed
qed

lemma diagonal_zero_bi_set:
  assumes c: "covered m" and d: "diagonal_zero m"
  shows "diagonal_zero (snd (bi_set m i j w))"
  unfolding diagonal_zero_def
proof (intro allI impI)
  fix k assume "k < mat_n (snd (bi_set m i j w))"
  then have k: "k < mat_n m" by simp
  from d k have old: "mat_data m ! cell m k k = 0"
    by (simp add: diagonal_zero_def read_def check_bounds_iff)
  show "read (snd (bi_set m i j w)) k k = Inr 0"
  proof (cases "i < mat_n m \<and> j < mat_n m \<and> i \<noteq> j")
    case True
    then have "cell m i j \<noteq> cell m k k" "cell m j i \<noteq> cell m k k"
      using cell_inj [OF c _ _ k k, of i j] cell_inj [OF c _ _ k k, of j i] by auto
    with True k old show ?thesis
      by (simp add: bi_set_def read_def check_bounds_iff cell_def)
  next
    case False
    with k old show ?thesis
      by (auto simp: bi_set_def read_def check_bounds_iff)
  qed
qed

lemma apply_writes_diagonal:
  "covered m \<Longrightarrow> diagonal_zero m \<Longrightarrow> apply_writes m ws = Some m' \<Longrightarrow>
   covered m' \<and> diagonal_zero m' \<and> mat_n m' = mat_n m"
proof (induction ws arbitrary: m)
  case Nil
  then show ?case by simp
next
  case (Cons x xs)
  obtain e m1 where r: "apply_write m x = (e, m1)" by (cases "apply_write m x")
  with Cons.prems(3) have e: "e = None" and rest: "apply_writes m1 xs = Some m'"
    by (auto split: option.splits)
  have m1: "m1 = snd (apply_write m x)" using r by simp
  have "covered m1 \<and> diagonal_zero m1 \<and> mat_n m1 = mat_n m"
    using Cons.prems(1,2) unfolding m1
    by (cases x) (simp_all add: covered_set_edge covered_bi_set diagonal_zero_set_edge diagonal_zero_bi_set)
  with Cons.IH [OF _ _ rest] show ?case by simp
qed

lemma bash_set_loop_fail:
  "fst (bash_set_loop mat ls bi) = Some e \<Longrightarrow>
   \<exists>pre l post. ls = pre @ l # post \<and> fst (bash_set_loop mat pre bi) = None \<and>
      fst (write_line (snd (bash_set_loop mat pre bi)) l bi) = Some e \<and>
      snd (bash_set_loop mat ls bi) = snd (bash_set_loop mat pre bi)"
proof (induction ls arbitrary: mat)
  case Nil
  then show ?case by simp
next
  case (Cons l ls)
  obtain r mat' where w: "write_line mat l bi = (r, mat')" by (cases "write_line mat l bi")
  show ?case
  proof (cases r)
    case None
    with w Cons.prems have "fst (bash_set_loop mat' ls bi) = Some e" by simp
    from Cons.IH [OF this] obtain pre l' post where
      p: "ls = pre @ l' # post" "fst (bash_set_loop mat' pre bi) = None"
         "fst (write_line (snd (bash_set_loop mat' pre bi)) l' bi) = Some e"
         "snd (bash_set_loop mat' ls bi) = snd (bash_set_loop mat' pre bi)" by blast
    have "l # ls = (l # pre) @ l' # post" using p(1) by simp
    moreover have "fst (bash_set_loop mat (l # pre) bi) = None" using p(2) w None by simp
    moreover have "fst (write_line (snd (bash_set_loop mat (l # pre) bi)) l' bi) = Some e"
      using p(3) w None by simp
    moreover have "snd (bash_set_loop mat (l # ls) bi) = snd (bash_set_loop mat (l # pre) bi)"
      using p(4) w None by simp
    ultimately show ?thesis by blast
  next
    case (Some e')
    with w Cons.prems have e': "e' = e" by simp
    have "mat' = mat" using write_line_fail [of mat l bi] w Some by simp
    have "l # ls = [] @ l # ls" by simp
    moreover have "fst (bash_set_loop mat [] bi) = None" by simp
    moreover have "fst (write_line (snd (bash_set_loop mat [] bi)) l bi) = Some e"
      using w Some e' by simp
    moreover have "snd (bash_set_loop mat (l # ls) bi) = snd (bash_set_loop mat [] bi)"
      using w Some \<open>mat' = mat\<close> by simp
    ultimately show ?thesis by blast
  qed
qed

section \<open>Failed writes\<close>

text \<open>
  C4, as the code has it. A failing \<^verbatim>\<open>set\<close> or \<^verbatim>\<open>bi_set\<close> (on the matrix or through the
  registry) leaves everything as it was. A failing \<^verbatim>\<open>bash_set\<close> either found no graph under
  the handle and changed nothing, or it stopped at the first rejected edge of the list: the
  edges before that one were all written and stay written, the rejected edge and the edges
  after it are not applied. There is no rollback.
\<close>

theorem C4_failed_writes:
  "(fst (set_edge m i j w) \<noteq> None \<longrightarrow> snd (set_edge m i j w) = m) \<and>
   (fst (bi_set m i j w) \<noteq> None \<longrightarrow> snd (bi_set m i j w) = m) \<and>
   (fst (gm_set gm ident l bi) \<noteq> None \<longrightarrow> snd (gm_set gm ident l bi) = gm) \<and>
   (fst (bash_set gm ident ls bi) \<noteq> None \<longrightarrow>
      (registry gm ident = None \<and> snd (bash_set gm ident ls bi) = gm) \<or>
      (\<exists>mat pre l' post. registry gm ident = Some mat \<and> ls = pre @ l' # post \<and>
          fst (bash_set_loop mat pre bi) = None \<and>
          fst (write_line (snd (bash_set_loop mat pre bi)) l' bi) = fst (bash_set gm ident ls bi) \<and>
          snd (bash_set gm ident ls bi) =
            gm\<lparr>registry := (registry gm)(ident \<mapsto> snd (bash_set_loop mat pre bi))\<rparr>))"
proof (intro conjI impI)
  show "fst (set_edge m i j w) \<noteq> None \<Longrightarrow> snd (set_edge m i j w) = m"
    by (auto simp: set_edge_def split: if_splits)
  show "fst (bi_set m i j w) \<noteq> None \<Longrightarrow> snd (bi_set m i j w) = m"
    by (auto simp: bi_set_def split: if_splits)
  show "fst (gm_set gm ident l bi) \<noteq> None \<Longrightarrow> snd (gm_set gm ident l bi) = gm"
  proof (cases "registry gm ident")
    case None
    then show ?thesis by (simp add: gm_set_def)
  next
    case (Some mat)
    assume f: "fst (gm_set gm ident l bi) \<noteq> None"
    then have "fst (write_line mat l bi) \<noteq> None"
      using Some by (simp add: gm_set_def case_prod_beta)
    then have "snd (write_line mat l bi) = mat" by (rule write_line_fail)
    then show ?thesis using Some by (simp add: gm_set_def case_prod_beta map_upd_triv)
  qed
  assume f: "fst (bash_set gm ident ls bi) \<noteq> None"
  show "(registry gm ident = None \<and> snd (bash_set gm ident ls bi) = gm) \<or>
      (\<exists>mat pre l' post. registry gm ident = Some mat \<and> ls = pre @ l' # post \<and>
          fst (bash_set_loop mat pre bi) = None \<and>
          fst (write_line (snd (bash_set_loop mat pre bi)) l' bi) = fst (bash_set gm ident ls bi) \<and>
          snd (bash_set gm ident ls bi) =
            gm\<lparr>registry := (registry gm)(ident \<mapsto> snd (bash_set_loop mat pre bi))\<rparr>)"
  proof (cases "registry gm ident")
    case None
    then show ?thesis by (simp add: bash_set_def)
  next
    case (Some mat)
    have fs: "fst (bash_set gm ident ls bi) = fst (bash_set_loop mat ls bi)"
      and sn: "snd (bash_set gm ident ls bi) =
                 gm\<lparr>registry := (registry gm)(ident \<mapsto> snd (bash_set_loop mat ls bi))\<rparr>"
      using Some by (simp_all add: bash_set_def case_prod_beta)
    from f fs obtain e where e: "fst (bash_set_loop mat ls bi) = Some e" by auto
    from bash_set_loop_fail [OF e] fs sn e Some show ?thesis by metis
  qed
qed

theorem C4_failed_writes_witness:
  "fst (set_edge (construct 3) 1 1 5) \<noteq> None \<and>
   snd (set_edge (construct 3) 1 1 5) = construct 3 \<and>
   fst (bash_set gm_one 1 [edge 0 1 5, edge 1 1 7] False) \<noteq> None \<and>
   (\<exists>mat pre l' post. registry gm_one 1 = Some mat \<and>
       [edge 0 1 5, edge 1 1 7] = pre @ l' # post \<and>
       fst (bash_set_loop mat pre False) = None \<and>
       snd (bash_set gm_one 1 [edge 0 1 5, edge 1 1 7] False) =
         gm_one\<lparr>registry := (registry gm_one)(1 \<mapsto> snd (bash_set_loop mat pre False))\<rparr>)"
proof -
  have a: "fst (set_edge (construct 3) 1 1 5) \<noteq> None"
    by (simp add: set_edge_def check_bounds_def construct_def word_le_nat_alt)
  have b: "fst (bash_set gm_one 1 [edge 0 1 5, edge 1 1 7] False) \<noteq> None"
    by code_simp
  have c: "registry gm_one 1 \<noteq> None"
    by (simp add: gm_one_def create_def instance_init_def)
  from C4_failed_writes [of "construct 3" 1 1 5 gm_one 1 "edge 1 1 7" False "[edge 0 1 5, edge 1 1 7]"]
       a b c
  show ?thesis by blast
qed

text \<open>
  C4, as the claim words it, fails for \<^verbatim>\<open>bash_set\<close>: on a fresh 3-node graph the list
  \<open>(0,1,5), (1,1,7)\<close> is rejected at its second edge, and cell \<open>(0,1)\<close> has changed from
  \<open>0\<close> to \<open>5\<close>.
\<close>

theorem C4_bash_set_counterexample:
  "fst (bash_set gm_one 1 [edge 0 1 5, edge 1 1 7] False) =
     Some (out_of_range ''Should not modify diagonal'') \<and>
   map_option mat_data (registry gm_one 1) = Some [0, 0, 0, 0, 0, 0, 0, 0, 0] \<and>
   map_option mat_data (registry (snd (bash_set gm_one 1 [edge 0 1 5, edge 1 1 7] False)) 1) =
     Some [0, 5, 0, 0, 0, 0, 0, 0, 0]"
  by code_simp

section \<open>The diagonal\<close>

text \<open>
  C8 at the input \<^verbatim>\<open>construct(65537)\<close>, \<^verbatim>\<open>set(65535, 1, 7)\<close>: the buffer has
  \<open>65537 * 65537 mod 2^32 = 131073\<close> cells, the write passes both bounds checks and the
  diagonal check, its 32-bit offset \<open>65535 * 65537 + 1\<close> wraps to \<open>0\<close>, which is the cell of
  \<open>(0,0)\<close>, and \<^verbatim>\<open>read(0,0)\<close> then returns \<open>7\<close>. (For \<open>n < 2^16\<close> the invariant holds:
  lemma \<open>apply_writes_diagonal\<close>.)
\<close>

theorem C8_diagonal_overwritten:
  "length (mat_data (construct 65537)) = 131073 \<and>
   read (construct 65537) 0 0 = Inr 0 \<and>
   fst (set_edge (construct 65537) 65535 1 7) = None \<and>
   read (snd (set_edge (construct 65537) 65535 1 7)) 0 0 = Inr 7"
  by (simp add: set_edge_def construct_def check_bounds_def read_def cell_def word_le_nat_alt)

section \<open>The 32-bit element count\<close>

lemma sq_mod4: "(N * N) mod 4 \<noteq> (3::nat)"
proof (cases "even N")
  case True
  then obtain k where "N = 2 * k" by (auto elim: evenE)
  then have "N * N = 4 * (k * k)" by simp
  then show ?thesis by simp
next
  case False
  then obtain k where "N = 2 * k + 1" by (auto elim: oddE)
  then have "N * N = 4 * (k * k + k) + 1" by (simp add: algebra_simps)
  then show ?thesis by simp
qed

lemma wrapped_sq_bound: "(N * N) mod 2 ^ 32 \<le> (2 ^ 32 - 2 :: nat)"
proof -
  have "(N * N) mod 2 ^ 32 mod 4 = (N * N) mod (4::nat)"
    by (rule mod_mod_cancel) simp
  then have "(N * N) mod 2 ^ 32 \<noteq> (2 ^ 32 - 1 :: nat)"
    using sq_mod4 [of N] by auto
  moreover have "(N * N) mod 2 ^ 32 < (2 ^ 32 :: nat)" by simp
  ultimately show ?thesis by linarith
qed

lemma off_diagonal_pick:
  assumes N: "0 < (N::nat)"
  shows "(K div N \<noteq> K mod N) \<or> (Suc K div N \<noteq> Suc K mod N)"
proof (rule ccontr)
  assume "\<not> ?thesis"
  then have a: "K div N = K mod N" and b: "Suc K div N = Suc K mod N" by auto
  have "K = (K mod N) * (N + 1)"
    using a div_mult_mod_eq [of K N] by (simp add: algebra_simps)
  moreover have "Suc K = (Suc K mod N) * (N + 1)"
    using b div_mult_mod_eq [of "Suc K" N] by (simp add: algebra_simps)
  ultimately have "(N + 1) dvd K" "(N + 1) dvd Suc K"
    by (metis dvd_triv_right)+
  then have "(N + 1) dvd 1"
    by (metis One_nat_def Suc_eq_plus1 dvd_add_right_iff plus_1_eq_Suc)
  with N show False by simp
qed

lemma cell_of_nat:
  assumes "a < unat n" "b < unat n"
  shows "cell (construct n) (of_nat a) (of_nat b) = (a * unat n + b) mod 2 ^ 32"
proof -
  have "(of_nat a :: u32) * n + of_nat b = of_nat (a * unat n + b)"
    by simp
  then show ?thesis
    by (simp add: cell_def construct_def unat_of_nat del: of_nat_add of_nat_mult)
qed

lemma past_the_end:
  assumes big: "2 ^ 16 \<le> unat n"
  shows "\<exists>i j. check_bounds (construct n) i \<and> check_bounds (construct n) j \<and> i \<noteq> j \<and>
               length (mat_data (construct n)) \<le> cell (construct n) i j"
proof -
  let ?N = "unat n"
  let ?L = "(?N * ?N) mod 2 ^ 32"
  have Npos: "0 < ?N" using big by simp
  have N32: "?N < 2 ^ 32" using unsigned_less [of n, where ?'a = nat] by simp
  have len: "length (mat_data (construct n)) = ?L"
    by (simp add: construct_def unat_word_ariths)
  have sq: "(2 ^ 32 :: nat) \<le> ?N * ?N"
  proof -
    have "(2 ^ 16 :: nat) * 2 ^ 16 \<le> ?N * ?N" using big by (intro mult_le_mono)
    then show ?thesis by simp
  qed
  obtain K where K: "K = (2 ^ 32 - 2 :: nat)" by simp
  from off_diagonal_pick [OF Npos, of K]
  obtain k where k: "k = K \<or> k = Suc K" and nd: "k div ?N \<noteq> k mod ?N" by auto
  have klt: "k < 2 ^ 32" using k K by auto
  have kge: "?L \<le> k" using wrapped_sq_bound [of ?N] k K by auto
  have i_lt: "k div ?N < ?N"
    using klt sq Npos by (simp add: less_mult_imp_div_less)
  have j_lt: "k mod ?N < ?N" using Npos by simp
  let ?i = "of_nat (k div ?N) :: u32" and ?j = "of_nat (k mod ?N) :: u32"
  have ui: "unat ?i = k div ?N" using i_lt by (intro le_unat_uoi [of _ n]) simp
  have uj: "unat ?j = k mod ?N" using j_lt by (intro le_unat_uoi [of _ n]) simp
  have "check_bounds (construct n) ?i"
    using ui i_lt by (simp add: check_bounds_iff construct_def word_less_nat_alt)
  moreover have "check_bounds (construct n) ?j"
    using uj j_lt by (simp add: check_bounds_iff construct_def word_less_nat_alt)
  moreover have "?i \<noteq> ?j" using nd ui uj by metis
  moreover have "cell (construct n) ?i ?j = k"
    using cell_of_nat [OF i_lt j_lt] klt by simp
  ultimately show ?thesis using len kge by metis
qed

text \<open>
  C10: the constructor allocates \<open>n * n mod 2^32\<close> cells. For every \<open>n \<ge> 2^16\<close> that is
  fewer than \<open>n\<^sup>2\<close>, every index below \<open>n\<close> still passes \<^verbatim>\<open>check_bounds\<close>, and there
  is an off-diagonal pair of in-range indices, accepted by both the read and the write,
  whose offset lies at or beyond the end of the buffer.
\<close>

theorem C10_buffer_wraps:
  assumes big: "2 ^ 16 \<le> unat n"
  shows "length (mat_data (construct n)) = (unat n * unat n) mod 2 ^ 32 \<and>
         length (mat_data (construct n)) < unat n * unat n \<and>
         (\<forall>i. i < n \<longrightarrow> check_bounds (construct n) i) \<and>
         (\<exists>i j. i < n \<and> j < n \<and>
                fst (set_edge (construct n) i j w) = None \<and>
                read (construct n) i j = Inr (mat_data (construct n) ! cell (construct n) i j) \<and>
                length (mat_data (construct n)) \<le> cell (construct n) i j)"
proof -
  have len: "length (mat_data (construct n)) = (unat n * unat n) mod 2 ^ 32"
    by (simp add: construct_def unat_word_ariths)
  have "(2 ^ 16 :: nat) * 2 ^ 16 \<le> unat n * unat n" using big by (intro mult_le_mono)
  then have sq: "(2 ^ 32 :: nat) \<le> unat n * unat n" by simp
  have "(unat n * unat n) mod 2 ^ 32 < (2 ^ 32 :: nat)" by simp
  with sq len have short: "length (mat_data (construct n)) < unat n * unat n" by linarith
  have chk: "\<forall>i. i < n \<longrightarrow> check_bounds (construct n) i"
    by (simp add: check_bounds_iff construct_def)
  from past_the_end [OF big] obtain i j where
    ij: "check_bounds (construct n) i" "check_bounds (construct n) j" "i \<noteq> j"
        "length (mat_data (construct n)) \<le> cell (construct n) i j" by blast
  have "i < n" "j < n" using ij(1,2) by (simp_all add: check_bounds_iff construct_def)
  moreover have "fst (set_edge (construct n) i j w) = None"
    using ij(1,2,3) by (simp add: set_edge_def)
  moreover have "read (construct n) i j = Inr (mat_data (construct n) ! cell (construct n) i j)"
    using ij(1,2) by (simp add: read_def)
  ultimately show ?thesis using len short chk ij(4) by blast
qed

theorem C10_buffer_wraps_witness:
  "length (mat_data (construct 65537)) = 131073 \<and>
   (\<exists>i j. i < 65537 \<and> j < 65537 \<and> fst (set_edge (construct 65537) i j 7) = None \<and>
          131073 \<le> cell (construct 65537) i j)"
proof -
  have h: "2 ^ 16 \<le> unat (65537 :: u32)" by simp
  have l: "length (mat_data (construct 65537)) = 131073" by (simp add: construct_def)
  from C10_buffer_wraps [OF h, of 7] l show ?thesis by metis
qed

section \<open>Neighbour queries\<close>

lemma fold_collect:
  "fold (\<lambda>j result. if P j then result @ [j] else result) xs acc = acc @ filter P xs"
  by (induction xs arbitrary: acc) simp_all

lemma get_from_filter:
  "get_from mat node =
     (if mat_n mat \<le> node then Inl (out_of_range ''Node index out of bounds'')
      else Inr (filter (\<lambda>j. j \<noteq> unat node \<and> row_at mat node j \<noteq> NO_EDGE) [0..<unat (mat_n mat)]))"
proof -
  have "(\<lambda>j result. if j = unat node then result
                  else if row_at mat node j = NO_EDGE then result
                  else result @ [j]) =
        (\<lambda>j result. if j \<noteq> unat node \<and> row_at mat node j \<noteq> NO_EDGE then result @ [j] else result)"
    by (auto simp: fun_eq_iff)
  then show ?thesis by (simp add: get_from_def fold_collect)
qed

lemma get_to_filter:
  "get_to mat node =
     (if mat_n mat \<le> node then Inl (out_of_range ''Node index out of bounds'')
      else Inr (filter (\<lambda>i. i \<noteq> unat node \<and> mat_data mat ! cell mat (of_nat i) node \<noteq> NO_EDGE)
                  [0..<unat (mat_n mat)]))"
proof -
  have "(\<lambda>i result. if i = unat node then result
                  else if mat_data mat ! cell mat (of_nat i) node = NO_EDGE then result
                  else result @ [i]) =
        (\<lambda>i result. if i \<noteq> unat node \<and> mat_data mat ! cell mat (of_nat i) node \<noteq> NO_EDGE
                     then result @ [i] else result)"
    by (auto simp: fun_eq_iff)
  then show ?thesis by (simp add: get_to_def fold_collect)
qed

lemma get_neighbours_filter:
  "get_neighbours mat node bi =
     (if mat_n mat \<le> node then Inl (out_of_range ''Node index out of bounds'')
      else Inr (filter (\<lambda>i. i \<noteq> unat node \<and>
                    (if bi then row_at mat node i \<noteq> NO_EDGE
                     else row_at mat node i \<noteq> NO_EDGE \<or>
                          mat_data mat ! cell mat (of_nat i) node \<noteq> NO_EDGE))
                  [0..<unat (mat_n mat)]))"
proof -
  have "(\<lambda>i result.
                  if i = unat node then result
                  else if bi then
                    (if row_at mat node i = NO_EDGE then result else result @ [i])
                  else
                    (if row_at mat node i = NO_EDGE \<and>
                        mat_data mat ! cell mat (of_nat i) node = NO_EDGE
                     then result else result @ [i])) =
        (\<lambda>i result. if i \<noteq> unat node \<and>
                    (if bi then row_at mat node i \<noteq> NO_EDGE
                     else row_at mat node i \<noteq> NO_EDGE \<or>
                          mat_data mat ! cell mat (of_nat i) node \<noteq> NO_EDGE)
                     then result @ [i] else result)"
    by (auto simp: fun_eq_iff)
  then show ?thesis by (simp add: get_neighbours_def fold_collect)
qed

lemma row_at_covered:
  assumes c: "covered mat" and i: "node < mat_n mat" and j: "j < unat (mat_n mat)"
  shows "row_at mat node j = mat_data mat ! cell mat node (of_nat j)"
proof -
  let ?N = "unat (mat_n mat)"
  have jw: "unat (of_nat j :: u32) = j" using j by (intro le_unat_uoi [of _ "mat_n mat"]) simp
  then have jn: "(of_nat j :: u32) < mat_n mat" using j by (simp add: word_less_nat_alt)
  have a: "unat node < ?N" using i by (simp add: word_less_nat_alt)
  have "unat node * ?N \<le> ?N * ?N" using a by (intro mult_le_mono1) simp
  then have "unat node * ?N < 2 ^ 32"
    using covered_sq [OF c] by linarith
  then have "unat (node * mat_n mat) = unat node * ?N" by (simp add: unat_word_ariths)
  then show ?thesis by (simp add: row_at_def cell_covered [OF c i jn] jw)
qed

text \<open>
  C2: for a valid node, \<^verbatim>\<open>get_neighbours(node, true)\<close> returns what \<^verbatim>\<open>get_from(node)\<close>
  returns, and \<^verbatim>\<open>get_neighbours(node, false)\<close> returns as a set the union of
  \<^verbatim>\<open>get_from(node)\<close> and \<^verbatim>\<open>get_to(node)\<close>. On a covered matrix these are the nodes
  \<open>j \<noteq> node\<close> with a non-sentinel entry in the row of \<open>node\<close>, respectively in its column.
\<close>

theorem C2_neighbours:
  assumes node: "node < mat_n mat"
  shows "get_neighbours mat node True = get_from mat node \<and>
         (\<exists>ns fs ts. get_neighbours mat node False = Inr ns \<and>
                     get_from mat node = Inr fs \<and> get_to mat node = Inr ts \<and>
                     set ns = set fs \<union> set ts \<and>
                     (covered mat \<longrightarrow>
                        set fs = {j. j < unat (mat_n mat) \<and> j \<noteq> unat node \<and>
                                     read mat node (of_nat j) \<noteq> Inr NO_EDGE} \<and>
                        set ts = {i. i < unat (mat_n mat) \<and> i \<noteq> unat node \<and>
                                     read mat (of_nat i) node \<noteq> Inr NO_EDGE}))"
proof -
  let ?N = "unat (mat_n mat)"
  have nle: "\<not> mat_n mat \<le> node" using node by simp
  have in_range: "(of_nat j :: u32) < mat_n mat" if "j < ?N" for j
  proof -
    have "unat (of_nat j :: u32) = j" using that by (intro le_unat_uoi [of _ "mat_n mat"]) simp
    with that show ?thesis by (simp add: word_less_nat_alt)
  qed
  have rd1: "read mat node (of_nat j) = Inr (row_at mat node j)" if "covered mat" "j < ?N" for j
    using that node in_range [OF that(2)]
    by (simp add: read_def check_bounds_iff row_at_covered)
  have rd2: "read mat (of_nat i) node = Inr (mat_data mat ! cell mat (of_nat i) node)" if "i < ?N" for i
    using that node in_range [OF that]
    by (simp add: read_def check_bounds_iff)
  have "get_neighbours mat node True = get_from mat node"
    by (simp add: get_neighbours_filter get_from_filter)
  moreover have "set (filter (\<lambda>i. i \<noteq> unat node \<and>
                    (row_at mat node i \<noteq> NO_EDGE \<or>
                          mat_data mat ! cell mat (of_nat i) node \<noteq> NO_EDGE)) [0..<?N]) =
       set (filter (\<lambda>j. j \<noteq> unat node \<and> row_at mat node j \<noteq> NO_EDGE) [0..<?N]) \<union>
       set (filter (\<lambda>i. i \<noteq> unat node \<and> mat_data mat ! cell mat (of_nat i) node \<noteq> NO_EDGE) [0..<?N])"
    by auto
  moreover have "covered mat \<Longrightarrow>
       set (filter (\<lambda>j. j \<noteq> unat node \<and> row_at mat node j \<noteq> NO_EDGE) [0..<?N]) =
       {j. j < ?N \<and> j \<noteq> unat node \<and> read mat node (of_nat j) \<noteq> Inr NO_EDGE}"
    using rd1 by auto
  moreover have
      "set (filter (\<lambda>i. i \<noteq> unat node \<and> mat_data mat ! cell mat (of_nat i) node \<noteq> NO_EDGE) [0..<?N]) =
       {i. i < ?N \<and> i \<noteq> unat node \<and> read mat (of_nat i) node \<noteq> Inr NO_EDGE}"
    using rd2 by auto
  ultimately show ?thesis
    using nle by (simp add: get_neighbours_filter get_from_filter get_to_filter)
qed

lemma rep9: "replicate 9 (0::u16) = [0, 0, 0, 0, 0, 0, 0, 0, 0]"
  by (simp add: numeral_eq_Suc)

lemma mat_three_eq: "mat_three = \<lparr>mat_n = 3, mat_data = [0, 5, 0, 0, 0, 0, 1, 0, 0]\<rparr>"
  by (simp add: mat_three_def set_edge_def construct_def check_bounds_def cell_def word_le_nat_alt
        rep9 nth_Cons' list_update_code)

theorem C2_neighbours_witness:
  "(0::u32) < mat_n mat_three \<and> covered mat_three \<and>
   get_neighbours mat_three 0 True = Inr [1] \<and> get_from mat_three 0 = Inr [1] \<and>
   get_neighbours mat_three 0 False = Inr [1, 2] \<and> get_to mat_three 0 = Inr [2] \<and>
   set [1, 2] = set [1] \<union> set [2::nat]"
proof -
  have h: "(0::u32) < mat_n mat_three" by (simp add: mat_three_eq)
  have c: "covered mat_three" by (simp add: covered_def mat_three_eq)
  have a: "get_neighbours mat_three 0 False = Inr [1, 2]"
    by (simp add: get_neighbours_def mat_three_eq row_at_def cell_def NO_EDGE_def upt_rec
          word_le_nat_alt)
  have b: "get_to mat_three 0 = Inr [2]"
    by (simp add: get_to_def mat_three_eq row_at_def cell_def NO_EDGE_def upt_rec word_le_nat_alt)
  have d: "get_from mat_three 0 = Inr [1]"
    by (simp add: get_from_def mat_three_eq row_at_def cell_def NO_EDGE_def upt_rec word_le_nat_alt)
  from C2_neighbours [OF h] h c a b d show ?thesis by auto
qed

section \<open>Handles\<close>

lemma serve_next_id:
  "next_id (snd (serve gm r)) = (if is_create r then next_id gm + 1 else next_id gm)"
  by (cases r)
     (simp_all add: create_def gm_set_def bash_set_def destroy_def atexit_def Let_def
        case_prod_beta split: option.splits)

lemma serve_handle:
  "fst (serve gm r) = (if is_create r then Some (next_id gm) else None)"
  by (cases r) (simp_all add: create_def Let_def)

lemma issued_general:
  "issued gm rs = map (\<lambda>i. next_id gm + of_nat i) [0..<length (filter is_create rs)]"
proof (induction rs arbitrary: gm)
  case Nil
  then show ?case by simp
next
  case (Cons r rs)
  obtain h gm' where s: "serve gm r = (h, gm')" by (cases "serve gm r")
  have h: "h = (if is_create r then Some (next_id gm) else None)"
    using serve_handle [of gm r] s by simp
  have n: "next_id gm' = (if is_create r then next_id gm + 1 else next_id gm)"
    using serve_next_id [of gm r] s by simp
  show ?case
  proof (cases "is_create r")
    case True
    have "map (\<lambda>i. next_id gm + of_nat i) [0..<Suc (length (filter is_create rs))] =
          next_id gm # map (\<lambda>i. next_id gm + 1 + of_nat i) [0..<length (filter is_create rs)]"
      by (simp add: upt_conv_Cons map_Suc_upt [symmetric] del: upt_Suc) 
    with True s h n Cons.IH [of gm'] show ?thesis by simp
  next
    case False
    with s h n Cons.IH [of gm'] show ?thesis by simp
  qed
qed

lemma serve_all_next_id:
  "next_id (serve_all gm rs) = next_id gm + of_nat (length (filter is_create rs))"
proof (induction rs arbitrary: gm)
  case Nil
  then show ?case by simp
next
  case (Cons r rs)
  show ?case by (simp add: Cons.IH serve_next_id)
qed

lemma handle_value:
  assumes "i < k" "k < 2 ^ 64"
  shows "unat (1 + of_nat i :: u64) = Suc i"
proof -
  have "(1 + of_nat i :: u64) = of_nat (Suc i)" by simp
  moreover have "Suc i < 2 ^ 64" using assms by simp
  ultimately show ?thesis by (simp add: unat_of_nat del: of_nat_Suc)
qed

lemma handles_sorted:
  assumes "k < 2 ^ 64"
  shows "sorted_wrt (<) (map (\<lambda>i. 1 + of_nat i :: u64) [0..<k])"
proof -
  have "(1 + of_nat i :: u64) < 1 + of_nat j" if "i < j" "j < k" for i j
    using that handle_value [of i k] handle_value [of j k] assms
    by (simp add: word_less_nat_alt)
  then show ?thesis
    by (simp add: sorted_wrt_iff_nth_less)
qed

text \<open>
  C9: starting from the fresh registry, as long as fewer than \<open>2^64\<close> graphs have been
  created (the 64-bit counter has not wrapped), the handles issued by any sequence of
  requests are \<open>1, 2, 3, \<dots>\<close> in the order of the \<^verbatim>\<open>create\<close> calls: strictly increasing
  as unsigned 64-bit values, pairwise different, starting at \<open>1\<close>. No request other than
  \<^verbatim>\<open>create\<close> touches the counter; \<^verbatim>\<open>destroy\<close> in particular leaves it as it is.
\<close>

theorem C9_handles:
  assumes few: "length (filter is_create rs) < 2 ^ 64"
  shows "issued instance_init rs = map (\<lambda>i. 1 + of_nat i) [0..<length (filter is_create rs)] \<and>
         sorted_wrt (<) (issued instance_init rs) \<and>
         distinct (issued instance_init rs) \<and>
         (issued instance_init rs \<noteq> [] \<longrightarrow> hd (issued instance_init rs) = 1) \<and>
         next_id (serve_all instance_init rs) = 1 + of_nat (length (filter is_create rs)) \<and>
         next_id (snd (destroy gm ident)) = next_id gm"
proof -
  let ?k = "length (filter is_create rs)"
  have eq: "issued instance_init rs = map (\<lambda>i. 1 + of_nat i) [0..<?k]"
    using issued_general [of instance_init rs] by (simp add: instance_init_def)
  have srt: "sorted_wrt (<) (issued instance_init rs)"
    unfolding eq by (rule handles_sorted [OF few])
  have dst: "distinct (issued instance_init rs)"
    using srt by (simp add: strict_sorted_iff)
  have hd1: "issued instance_init rs \<noteq> [] \<longrightarrow> hd (issued instance_init rs) = 1"
    unfolding eq by (cases ?k) (simp_all add: upt_conv_Cons del: upt_Suc)
  have nxt: "next_id (serve_all instance_init rs) = 1 + of_nat ?k"
    using serve_all_next_id [of instance_init rs] by (simp add: instance_init_def)
  have dsy: "next_id (snd (destroy gm ident)) = next_id gm"
    by (simp add: destroy_def)
  from eq srt dst hd1 nxt dsy show ?thesis by blast
qed

theorem C9_handles_witness:
  "issued instance_init [Create 3, Destroy 1, Create 2, Query, Create 5] = [1, 2, 3] \<and>
   sorted_wrt (<) [1, 2, 3 :: u64] \<and>
   next_id (serve_all instance_init [Create 3, Destroy 1, Create 2, Query, Create 5]) = 4"
proof -
  have h: "length (filter is_create [Create 3, Destroy 1, Create 2, Query, Create 5]) < 2 ^ 64"
    by simp
  have u: "[0..<3] = [0, 1, 2]" by (simp add: upt_rec)
  from C9_handles [OF h] show ?thesis by (simp add: u)
qed

section \<open>Triangle counting\<close>

lemma fold_add_mod:
  assumes "\<And>x c. x \<in> set xs \<Longrightarrow> c < M \<Longrightarrow> step x c = (c + g x) mod M" and "c < (M::nat)"
  shows "fold step xs c = (c + sum_list (map g xs)) mod M"
  using assms
proof (induction xs arbitrary: c)
  case Nil
  then show ?case by simp
next
  case (Cons x xs)
  have M: "0 < M" using Cons.prems(2) by simp
  have s: "step x c = (c + g x) mod M" using Cons.prems by simp
  have "fold step xs (step x c) = (step x c + sum_list (map g xs)) mod M"
    using Cons.prems(1) M by (intro Cons.IH) (simp_all add: s)
  then show ?case by (simp add: s mod_add_left_eq add.assoc)
qed

lemma of_nat_index:
  assumes "i < unat (n :: u32)"
  shows "unat (of_nat i :: u32) = i" and "(of_nat i :: u32) < n"
proof -
  show u: "unat (of_nat i :: u32) = i" using assms by (intro le_unat_uoi [of _ n]) simp
  show "(of_nat i :: u32) < n" using u assms by (simp add: word_less_nat_alt)
qed

lemma cell_nat:
  assumes c: "covered mat" and i: "i < unat (mat_n mat)" and j: "j < unat (mat_n mat)"
  shows "cell mat (of_nat i) (of_nat j) = i * unat (mat_n mat) + j"
  using cell_covered [OF c of_nat_index(2) [OF i] of_nat_index(2) [OF j]]
  by (simp add: of_nat_index(1) [OF i] of_nat_index(1) [OF j])

lemma adjacent_nat:
  assumes c: "covered mat" and i: "i < unat (mat_n mat)" and j: "j < unat (mat_n mat)"
  shows "adjacent mat i j \<longleftrightarrow> mat_data mat ! (i * unat (mat_n mat) + j) \<noteq> NO_EDGE"
  using of_nat_index(2) [OF i] of_nat_index(2) [OF j]
  by (simp add: adjacent_def read_def check_bounds_iff cell_nat [OF c i j])

lemma tri_row_scan_card:
  "tri_row_scan data n i j =
     card {k. j < k \<and> k < n \<and> data ! (i * n + k) \<noteq> NO_EDGE \<and> data ! (j * n + k) \<noteq> NO_EDGE}"
proof -
  have "{k. data ! (i * n + k) \<noteq> NO_EDGE \<and> data ! (j * n + k) \<noteq> NO_EDGE} \<inter> set [Suc j..<n] =
        {k. j < k \<and> k < n \<and> data ! (i * n + k) \<noteq> NO_EDGE \<and> data ! (j * n + k) \<noteq> NO_EDGE}"
    by auto
  then show ?thesis
    by (simp add: tri_row_scan_def distinct_length_filter del: set_upt)
qed

lemma tri_col_scan_card:
  "tri_col_scan data n i j =
     card {k. k < n \<and> k \<noteq> i \<and> k \<noteq> j \<and> data ! (j * n + k) \<noteq> NO_EDGE \<and>
              data ! (k * n + i) \<noteq> NO_EDGE}"
proof -
  let ?f = "\<lambda>k. if k = i then NO_EDGE else data ! (k * n + i)"
  let ?Q = "\<lambda>(k, v_k_i). if k = i \<or> k = j then False
                else data ! (j * n + k) \<noteq> NO_EDGE \<and> v_k_i \<noteq> NO_EDGE"
  have z: "zip [0..<n] (col_iter data n i i) = map (\<lambda>k. (k, ?f k)) [0..<n]"
    by (simp add: col_iter_def zip_map2 zip_same_conv_map)
  have "length (filter ?Q (map (\<lambda>k. (k, ?f k)) [0..<n])) =
        length (filter (?Q \<circ> (\<lambda>k. (k, ?f k))) [0..<n])"
    by (simp add: filter_map)
  also have "\<dots> = card ({k. (?Q \<circ> (\<lambda>k. (k, ?f k))) k} \<inter> set [0..<n])"
    by (simp add: distinct_length_filter del: set_upt)
  also have "{k. (?Q \<circ> (\<lambda>k. (k, ?f k))) k} \<inter> set [0..<n] =
     {k. k < n \<and> k \<noteq> i \<and> k \<noteq> j \<and> data ! (j * n + k) \<noteq> NO_EDGE \<and>
              data ! (k * n + i) \<noteq> NO_EDGE}"
    by auto
  finally show ?thesis by (simp add: tri_col_scan_def z)
qed

lemma scan_undirected_sum:
  assumes c: "covered mat"
  shows "scan_triangles mat False =
     (\<Sum>i = 0..<unat (mat_n mat). \<Sum>j = Suc i..<unat (mat_n mat).
        if raw_edge mat i j
        then card {k. j < k \<and> k < unat (mat_n mat) \<and> raw_edge mat i k \<and> raw_edge mat j k}
        else 0) mod 2 ^ 64"
proof -
  let ?N = "unat (mat_n mat)"
  let ?M = "2 ^ 64 :: nat"
  let ?g = "\<lambda>i j. if raw_edge mat i j
        then card {k. j < k \<and> k < ?N \<and> raw_edge mat i k \<and> raw_edge mat j k} else 0"
  let ?inner = "\<lambda>i j count.
                   if mat_data mat ! cell mat (of_nat i) (of_nat j) = NO_EDGE then count
                   else (count + tri_row_scan (mat_data mat) ?N i j) mod ?M"
  have inner: "fold (?inner i) [Suc i..<?N] a = (a + sum_list (map (?g i) [Suc i..<?N])) mod ?M"
    if "i \<in> set [0..<?N]" "a < ?M" for i a
  proof (rule fold_add_mod [OF _ that(2)])
    fix j b assume j: "j \<in> set [Suc i..<?N]" and b: "b < ?M"
    have "i < ?N" "j < ?N" using that(1) j by simp_all
    then show "?inner i j b = (b + ?g i j) mod ?M"
      using b by (simp add: cell_nat [OF c] tri_row_scan_card raw_edge_def)
  qed
  have "fold (\<lambda>i. fold (?inner i) [Suc i..<?N]) [0..<?N] 0 =
        (0 + sum_list (map (\<lambda>i. sum_list (map (?g i) [Suc i..<?N])) [0..<?N])) mod ?M"
    by (rule fold_add_mod) (use inner in simp_all)
  then show ?thesis
    by (simp add: scan_triangles_def Let_def interv_sum_list_conv_sum_set_nat)
qed

lemma scan_directed_sum:
  assumes c: "covered mat"
  shows "scan_triangles mat True =
     (\<Sum>i = 0..<unat (mat_n mat). \<Sum>j = 0..<unat (mat_n mat).
        if j \<noteq> i \<and> raw_edge mat i j
        then card {k. k < unat (mat_n mat) \<and> k \<noteq> i \<and> k \<noteq> j \<and> raw_edge mat j k \<and> raw_edge mat k i}
        else 0) mod 2 ^ 64"
proof -
  let ?N = "unat (mat_n mat)"
  let ?M = "2 ^ 64 :: nat"
  let ?g = "\<lambda>i j. if j \<noteq> i \<and> raw_edge mat i j
        then card {k. k < ?N \<and> k \<noteq> i \<and> k \<noteq> j \<and> raw_edge mat j k \<and> raw_edge mat k i} else 0"
  let ?inner = "\<lambda>i j count.
                   if i = j then count
                   else if mat_data mat ! cell mat (of_nat i) (of_nat j) = NO_EDGE then count
                   else (count + tri_col_scan (mat_data mat) ?N i j) mod ?M"
  have inner: "fold (?inner i) [0..<?N] a = (a + sum_list (map (?g i) [0..<?N])) mod ?M"
    if "i \<in> set [0..<?N]" "a < ?M" for i a
  proof (rule fold_add_mod [OF _ that(2)])
    fix j b assume j: "j \<in> set [0..<?N]" and b: "b < ?M"
    have "i < ?N" "j < ?N" using that(1) j by simp_all
    then show "?inner i j b = (b + ?g i j) mod ?M"
      using b by (auto simp: cell_nat [OF c] tri_col_scan_card raw_edge_def)
  qed
  have "fold (\<lambda>i. fold (?inner i) [0..<?N]) [0..<?N] 0 =
        (0 + sum_list (map (\<lambda>i. sum_list (map (?g i) [0..<?N])) [0..<?N])) mod ?M"
    by (rule fold_add_mod) (use inner in simp_all)
  then show ?thesis
    by (simp add: scan_triangles_def Let_def interv_sum_list_conv_sum_set_nat)
qed

lemma upper_triangles_raw:
  assumes c: "covered mat"
  shows "upper_triangles mat =
     (SIGMA i:{0..<unat (mat_n mat)}. SIGMA j:{j \<in> {Suc i..<unat (mat_n mat)}. raw_edge mat i j}.
        {k. j < k \<and> k < unat (mat_n mat) \<and> raw_edge mat i k \<and> raw_edge mat j k})"
  unfolding upper_triangles_def raw_edge_def
  by (auto simp: adjacent_nat [OF c])

lemma cycle_visits_raw:
  assumes c: "covered mat"
  shows "cycle_visits mat =
     (SIGMA i:{0..<unat (mat_n mat)}. SIGMA j:{j \<in> {0..<unat (mat_n mat)}. j \<noteq> i \<and> raw_edge mat i j}.
        {k. k < unat (mat_n mat) \<and> k \<noteq> i \<and> k \<noteq> j \<and> raw_edge mat j k \<and> raw_edge mat k i})"
  unfolding cycle_visits_def raw_edge_def
  by (auto simp: adjacent_nat [OF c])

lemma card_nested_Sigma:
  assumes "finite A" and B: "\<And>i. finite (B i)" and C: "\<And>i j. finite (C i j)"
  shows "card (SIGMA i:A. SIGMA j:{j \<in> B i. P i j}. C i j) =
         (\<Sum>i\<in>A. \<Sum>j\<in>B i. if P i j then card (C i j) else 0)"
proof -
  have "card (SIGMA i:A. SIGMA j:{j \<in> B i. P i j}. C i j) =
        (\<Sum>i\<in>A. card (SIGMA j:{j \<in> B i. P i j}. C i j))"
    using assms by (intro card_SigmaI) auto
  also have "\<dots> = (\<Sum>i\<in>A. \<Sum>j\<in>{j \<in> B i. P i j}. card (C i j))"
    using B C by (intro sum.cong refl card_SigmaI) auto
  also have "\<dots> = (\<Sum>i\<in>A. \<Sum>j\<in>B i. if P i j then card (C i j) else 0)"
    using B by (intro sum.cong refl sum.inter_filter)
  finally show ?thesis .
qed

lemma triples_bound:
  assumes "T \<subseteq> {0..<N} \<times> {0..<N} \<times> {0..<N::nat}" and "N < 2 ^ 16"
  shows "finite T" and "card T < 2 ^ 64"
proof -
  have f: "finite ({0..<N} \<times> {0..<N} \<times> {0..<N})" by simp
  show "finite T" using assms(1) f by (rule finite_subset)
  have "card T \<le> card ({0..<N} \<times> {0..<N} \<times> {0..<N})"
    using assms(1) f by (intro card_mono)
  also have "\<dots> = N * (N * N)" by (simp add: card_cartesian_product)
  also have "\<dots> \<le> 2 ^ 16 * (2 ^ 16 * 2 ^ 16)"
    using assms(2) by (intro mult_le_mono) simp_all
  also have "\<dots> < (2 ^ 64 :: nat)" by simp
  finally show "card T < 2 ^ 64" .
qed

lemma upper_triangles_sub:
  "upper_triangles mat \<subseteq> {0..<unat (mat_n mat)} \<times> {0..<unat (mat_n mat)} \<times> {0..<unat (mat_n mat)}"
  by (auto simp: upper_triangles_def)

lemma cycle_visits_sub:
  "cycle_visits mat \<subseteq> {0..<unat (mat_n mat)} \<times> {0..<unat (mat_n mat)} \<times> {0..<unat (mat_n mat)}"
  by (auto simp: cycle_visits_def)

lemma scan_undirected_card:
  assumes c: "covered mat"
  shows "scan_triangles mat False = card (upper_triangles mat)"
proof -
  have N: "unat (mat_n mat) < 2 ^ 16" using c by (simp add: covered_def)
  have "card (upper_triangles mat) < 2 ^ 64"
    using upper_triangles_sub N by (rule triples_bound)
  moreover have "scan_triangles mat False = card (upper_triangles mat) mod 2 ^ 64"
    unfolding scan_undirected_sum [OF c] upper_triangles_raw [OF c]
    by (subst card_nested_Sigma) simp_all
  ultimately show ?thesis by simp
qed

lemma scan_directed_card:
  assumes c: "covered mat"
  shows "scan_triangles mat True = card (cycle_visits mat)"
proof -
  have N: "unat (mat_n mat) < 2 ^ 16" using c by (simp add: covered_def)
  have "card (cycle_visits mat) < 2 ^ 64"
    using cycle_visits_sub N by (rule triples_bound)
  moreover have "scan_triangles mat True = card (cycle_visits mat) mod 2 ^ 64"
    unfolding scan_directed_sum [OF c] cycle_visits_raw [OF c]
    by (subst card_nested_Sigma) simp_all
  ultimately show ?thesis by simp
qed

lemma visits_rotations:
  "cycle_visits mat = directed_cycles mat \<union> rot ` directed_cycles mat \<union> rot ` rot ` directed_cycles mat"
proof (intro equalityI subsetI)
  fix t assume t: "t \<in> cycle_visits mat"
  obtain i j k where ijk: "t = (i, j, k)" by (cases t) auto
  from t ijk have d: "i \<noteq> j" "k \<noteq> i" "k \<noteq> j" by (auto simp: cycle_visits_def)
  then consider "i < j \<and> i < k" | "j < i \<and> j < k" | "k < i \<and> k < j" by linarith
  then show "t \<in> directed_cycles mat \<union> rot ` directed_cycles mat \<union> rot ` rot ` directed_cycles mat"
  proof cases
    case 1
    with t ijk show ?thesis by (simp add: directed_cycles_def)
  next
    case 2
    with t ijk have "(j, k, i) \<in> directed_cycles mat"
      by (auto simp: directed_cycles_def cycle_visits_def)
    moreover have "t = rot (rot (j, k, i))" by (simp add: rot_def ijk)
    ultimately show ?thesis by blast
  next
    case 3
    with t ijk have "(k, i, j) \<in> directed_cycles mat"
      by (auto simp: directed_cycles_def cycle_visits_def)
    moreover have "t = rot (k, i, j)" by (simp add: rot_def ijk)
    ultimately show ?thesis by blast
  qed
next
  fix t assume "t \<in> directed_cycles mat \<union> rot ` directed_cycles mat \<union> rot ` rot ` directed_cycles mat"
  then show "t \<in> cycle_visits mat"
    by (auto simp: directed_cycles_def cycle_visits_def rot_def)
qed

lemma visits_three_times:
  "card (cycle_visits mat) = 3 * card (directed_cycles mat)"
proof -
  let ?C = "directed_cycles mat"
  have fin: "finite ?C"
  proof (rule finite_subset)
    show "?C \<subseteq> cycle_visits mat" by (auto simp: directed_cycles_def)
    show "finite (cycle_visits mat)"
      using cycle_visits_sub by (rule finite_subset) simp
  qed
  have inj: "inj_on rot A" for A by (auto simp: inj_on_def rot_def)
  have c1: "card (rot ` ?C) = card ?C" by (rule card_image [OF inj])
  have c2: "card (rot ` rot ` ?C) = card ?C" by (simp add: card_image [OF inj])
  have d1: "?C \<inter> rot ` ?C = {}" by (auto simp: directed_cycles_def rot_def)
  have d2: "(?C \<union> rot ` ?C) \<inter> rot ` rot ` ?C = {}"
    by (auto simp: directed_cycles_def rot_def)
  have "card (cycle_visits mat) = card (?C \<union> rot ` ?C) + card (rot ` rot ` ?C)"
    unfolding visits_rotations [of mat] using fin d2 by (intro card_Un_disjoint) simp_all
  also have "card (?C \<union> rot ` ?C) = card ?C + card (rot ` ?C)"
    using fin d1 by (intro card_Un_disjoint) simp_all
  finally show ?thesis using c1 c2 by simp
qed

text \<open>
  C6, on a matrix whose buffer holds \<open>n \<times> n\<close> cells. Undirected: the result is the number
  of index triples \<open>i < j < k\<close> with entries \<open>(i,j)\<close>, \<open>(i,k)\<close>, \<open>(j,k)\<close> all present.
  Directed: the raw sum is the number of ordered triples of distinct nodes with
  \<open>i \<rightarrow> j \<rightarrow> k \<rightarrow> i\<close>; these are exactly the three rotations of the directed 3-cycles, so
  the raw sum is three times the number of cycles, and the result, the raw sum divided by
  3, is the number of directed 3-cycles.
\<close>

theorem C6_triangles:
  assumes c: "covered mat"
  shows "count_triangles mat False = card (upper_triangles mat) \<and>
         scan_triangles mat True = card (cycle_visits mat) \<and>
         cycle_visits mat =
           directed_cycles mat \<union> rot ` directed_cycles mat \<union> rot ` rot ` directed_cycles mat \<and>
         card (cycle_visits mat) = 3 * card (directed_cycles mat) \<and>
         count_triangles mat True = scan_triangles mat True div 3 \<and>
         count_triangles mat True = card (directed_cycles mat)"
  using scan_undirected_card [OF c] scan_directed_card [OF c] visits_rotations [of mat]
    visits_three_times [of mat]
  by (simp add: count_triangles_def)

lemma mat_triangle_eq: "mat_triangle = \<lparr>mat_n = 3, mat_data = [0, 1, 1, 1, 0, 1, 1, 1, 0]\<rparr>"
  by (simp add: mat_triangle_def bi_set_def construct_def check_bounds_def cell_def word_le_nat_alt
        rep9 nth_Cons' list_update_code)

lemma triangle_undirected: "count_triangles mat_triangle False = 1"
  by (simp add: count_triangles_def scan_triangles_def tri_row_scan_def cell_def mat_triangle_eq
        NO_EDGE_def upt_rec)

lemma triangle_directed: "count_triangles mat_triangle True = 2"
  by (simp add: count_triangles_def scan_triangles_def tri_col_scan_def col_iter_def cell_def
        mat_triangle_eq NO_EDGE_def upt_rec)

theorem C6_triangles_witness:
  "covered mat_triangle \<and>
   count_triangles mat_triangle False = 1 \<and> card (upper_triangles mat_triangle) = 1 \<and>
   count_triangles mat_triangle True = 2 \<and> card (directed_cycles mat_triangle) = 2 \<and>
   scan_triangles mat_triangle True = 6"
proof -
  have c: "covered mat_triangle" by (simp add: covered_def mat_triangle_eq)
  from C6_triangles [OF c]
  have u: "count_triangles mat_triangle False = card (upper_triangles mat_triangle)"
    and v: "scan_triangles mat_triangle True = card (cycle_visits mat_triangle)"
    and t: "card (cycle_visits mat_triangle) = 3 * card (directed_cycles mat_triangle)"
    and d: "count_triangles mat_triangle True = card (directed_cycles mat_triangle)"
    by blast+
  from u v t d c triangle_undirected triangle_directed show ?thesis by linarith
qed

section \<open>Shortest paths\<close>

lemma int32_id: "- 2147483648 \<le> x \<Longrightarrow> x \<le> 2147483647 \<Longrightarrow> int32 x = x"
  by (simp add: int32_def)

lemma seen_finite [simp]: "finite (seen N dst)"
  by (simp add: seen_def)

lemma seen_card_le: "card (seen N dst) \<le> N"
proof -
  have "seen N dst \<subseteq> {..<N}" by (auto simp: seen_def)
  then have "card (seen N dst) \<le> card {..<N}" by (intro card_mono) simp_all
  then show ?thesis by simp
qed

lemma seen_card_less:
  assumes "v < N" "dst ! v = INF32"
  shows "card (seen N dst) < N"
proof -
  have "seen N dst \<subseteq> {..<N} - {v}" using assms by (auto simp: seen_def)
  then have "card (seen N dst) \<le> card ({..<N} - {v})" by (intro card_mono) simp_all
  also have "\<dots> < N" using assms(1) by (simp add: card_Diff_singleton_if) 
  finally show ?thesis .
qed

lemma seen_update_new:
  assumes "length dst = N" "v < N" "dst ! v = INF32" "a \<noteq> INF32"
  shows "seen N (dst[v := a]) = insert v (seen N dst)" and "v \<notin> seen N dst"
  using assms by (auto simp: seen_def nth_list_update)

lemma seen_update_old:
  assumes "length dst = N" "v < N" "dst ! v \<noteq> INF32" "a \<noteq> INF32"
  shows "seen N (dst[v := a]) = seen N dst"
  using assms by (auto simp: seen_def nth_list_update)

lemma bounded_sum:
  assumes b: "bounded N W dst" and u: "u < N" "dst ! u \<noteq> INF32"
    and w: "0 \<le> w" "w \<le> W" and cap: "int N * W \<le> INF32"
  shows "0 \<le> dst ! u + w" and "dst ! u + w \<le> int (card (seen N dst)) * W"
    and "dst ! u + w \<le> INF32" and "int32 (dst ! u + w) = dst ! u + w"
proof -
  have W: "0 \<le> W" using w by simp
  have du: "0 \<le> dst ! u" "dst ! u \<le> (int (card (seen N dst)) - 1) * W"
    using b u by (auto simp: bounded_def)
  show nonneg: "0 \<le> dst ! u + w" using du(1) w(1) by simp
  have "dst ! u + w \<le> (int (card (seen N dst)) - 1) * W + W" using du(2) w(2) by simp
  then show le: "dst ! u + w \<le> int (card (seen N dst)) * W" by (simp add: algebra_simps)
  have "int (card (seen N dst)) * W \<le> int N * W"
    using seen_card_le [of N dst] W by (intro mult_right_mono) simp_all
  with le cap show top: "dst ! u + w \<le> INF32" by simp
  from nonneg top show "int32 (dst ! u + w) = dst ! u + w"
    by (intro int32_id) (simp_all add: INF32_def)
qed

lemma bounded_sum_fresh:
  assumes b: "bounded N W dst" and u: "u < N" "dst ! u \<noteq> INF32"
    and w: "1 \<le> w" "w \<le> W" and cap: "int N * W \<le> INF32"
    and v: "v < N" "dst ! v = INF32"
  shows "dst ! u + w < INF32"
proof -
  have W: "0 < W" using w by simp
  have "dst ! u + w \<le> int (card (seen N dst)) * W"
    using bounded_sum(2) [OF b u _ w(2) cap] w(1) by simp
  also have "\<dots> < int N * W"
    using seen_card_less [OF v] W by (intro mult_strict_right_mono) simp_all
  finally show ?thesis using cap by simp
qed

lemma bounded_improve:
  assumes b: "bounded N W dst" and u: "u < N" "dst ! u \<noteq> INF32"
    and w: "0 \<le> w" "w \<le> W" and cap: "int N * W \<le> INF32"
    and v: "v < N" and a: "a = dst ! u + w" "a < dst ! v"
  shows "bounded N W (dst[v := a])"
proof -
  have len: "length dst = N" using b by (simp add: bounded_def)
  have W: "0 \<le> W" using w by simp
  have a0: "0 \<le> a" using bounded_sum(1) [OF b u w cap] a(1) by simp
  have dv: "dst ! v \<le> INF32" using b v by (simp add: bounded_def)
  with a(2) have aI: "a < INF32" by simp
  then have aN: "a \<noteq> INF32" by simp
  have card_mono: "int (card (seen N dst)) \<le> int (card (seen N (dst[v := a])))"
   and a_le: "a \<le> (int (card (seen N (dst[v := a]))) - 1) * W"
  proof -
    show "int (card (seen N dst)) \<le> int (card (seen N (dst[v := a])))"
    proof (cases "dst ! v = INF32")
      case True
      with seen_update_new [OF len v True aN] show ?thesis by (simp add: card_insert_if)
    next
      case False
      with seen_update_old [OF len v False aN] show ?thesis by simp
    qed
    show "a \<le> (int (card (seen N (dst[v := a]))) - 1) * W"
    proof (cases "dst ! v = INF32")
      case True
      have "card (seen N (dst[v := a])) = Suc (card (seen N dst))"
        using seen_update_new [OF len v True aN] by simp
      then show ?thesis using bounded_sum(2) [OF b u w cap] a(1) by simp
    next
      case False
      have "dst ! v \<le> (int (card (seen N dst)) - 1) * W"
        using b v False by (simp add: bounded_def)
      moreover have "seen N (dst[v := a]) = seen N dst"
        using seen_update_old [OF len v False aN] by simp
      ultimately show ?thesis using a(2) by simp
    qed
  qed
  show ?thesis
    unfolding bounded_def
  proof (intro conjI allI impI)
    show "length (dst[v := a]) = N" using len by simp
  next
    fix x assume x: "x < N"
    have old: "0 \<le> dst ! x" "dst ! x \<le> INF32" using b x by (simp_all add: bounded_def)
    show "0 \<le> dst[v := a] ! x" "dst[v := a] ! x \<le> INF32"
      using old a0 aI len x by (cases "x = v"; simp)+
  next
    fix x assume x: "x < N" and f: "dst[v := a] ! x \<noteq> INF32"
    show "dst[v := a] ! x \<le> (int (card (seen N (dst[v := a]))) - 1) * W"
    proof (cases "x = v")
      case True
      then show ?thesis using a_le len v by simp
    next
      case False
      then have "dst ! x \<noteq> INF32" using f by simp
      then have "dst ! x \<le> (int (card (seen N dst)) - 1) * W"
        using b x by (simp add: bounded_def)
      also have "\<dots> \<le> (int (card (seen N (dst[v := a]))) - 1) * W"
        using card_mono W by (intro mult_right_mono) simp_all
      finally show ?thesis using False by simp
    qed
  qed
qed

lemma sum_list_nat_update:
  assumes "v < length dst" "0 \<le> a" "a < dst ! v"
  shows "sum_list (map nat (dst[v := a])) < sum_list (map nat dst)"
proof -
  have "sum_list ((map nat dst)[v := nat a]) = sum_list (map nat dst) + nat a - map nat dst ! v"
    using assms(1) by (intro sum_list_update) simp
  moreover have "map nat dst ! v \<le> sum_list (map nat dst)"
    using assms(1) by (intro member_le_sum_list) simp_all
  moreover have "nat a < map nat dst ! v" using assms by simp
  ultimately show ?thesis by (simp add: map_update)
qed

lemma potential_improve:
  assumes "v < length dst" "0 \<le> a" "a < dst ! v"
  shows "potential (dst[v := a], q @ [e]) < potential (dst, q)"
  using sum_list_nat_update [OF assms] by (simp add: potential_def)

lemma sound_improve:
  assumes s: "sound c mat s dst" and len: "length dst = unat (mat_n mat)"
    and u: "dst ! u \<noteq> INF32" and a: "arc mat u v" and e: "a = dst ! u + c u v"
  shows "sound c mat s (dst[v := a])"
  unfolding sound_def
proof (intro allI impI)
  fix x assume x: "x < unat (mat_n mat)" and f: "dst[v := a] ! x \<noteq> INF32"
  have uv: "u < unat (mat_n mat)" "v < unat (mat_n mat)" using a by (simp_all add: arc_def)
  show "walk c mat s x (dst[v := a] ! x)"
  proof (cases "x = v")
    case True
    have "walk c mat s u (dst ! u)" using s uv(1) u by (simp add: sound_def)
    then have "walk c mat s v (dst ! u + c u v)" using a by (rule walk_arc)
    then show ?thesis using True e len uv by simp
  next
    case False
    with f x s show ?thesis by (simp add: sound_def)
  qed
qed


lemma mat_at_nat:
  assumes "covered mat" "u < unat (mat_n mat)" "v < unat (mat_n mat)"
  shows "mat_at mat u v = mat_data mat ! (u * unat (mat_n mat) + v)"
    and "mat_at mat u v \<in> set (mat_data mat)"
proof -
  show e: "mat_at mat u v = mat_data mat ! (u * unat (mat_n mat) + v)"
    by (simp add: mat_at_def cell_nat [OF assms])
  have "u * unat (mat_n mat) + v < length (mat_data mat)"
    using index_bound [OF assms(2,3)] assms(1) by (simp add: covered_def)
  then show "mat_at mat u v \<in> set (mat_data mat)" unfolding e by (rule nth_mem)
qed

lemma arc_weight:
  assumes "covered mat" "arc mat u v"
  shows "1 \<le> weight mat u v"
    and "weights_le mat W \<Longrightarrow> weight mat u v \<le> W"
    and "unit_weights mat \<Longrightarrow> weight mat u v = 1"
proof -
  have uv: "u < unat (mat_n mat)" "v < unat (mat_n mat)" and ne: "mat_at mat u v \<noteq> 0"
    using assms(2) by (simp_all add: arc_def NO_EDGE_def)
  have mem: "mat_at mat u v \<in> set (mat_data mat)" by (rule mat_at_nat(2) [OF assms(1) uv])
  have "uint (mat_at mat u v) \<noteq> 0" using ne by (simp add: uint_0_iff)
  moreover have "0 \<le> uint (mat_at mat u v)" by simp
  ultimately show "1 \<le> weight mat u v" unfolding weight_def by linarith
  show "weights_le mat W \<Longrightarrow> weight mat u v \<le> W"
    using mem by (simp add: weights_le_def weight_def)
  show "unit_weights mat \<Longrightarrow> weight mat u v = 1"
    using mem ne by (auto simp: unit_weights_def weight_def NO_EDGE_def)
qed

subsection \<open>Breadth-first search\<close>

lemma covered_cap: "covered mat \<Longrightarrow> int (unat (mat_n mat)) * 1 \<le> INF32"
proof -
  assume "covered mat"
  then have "unat (mat_n mat) < 65536" by (simp add: covered_def)
  then have "int (unat (mat_n mat)) < 65536" by linarith
  then show ?thesis by (simp add: INF32_def)
qed

lemma bfs_discover:
  assumes c: "covered mat" and mid: "bfs_mid mat s u (dst, q)"
    and a: "arc mat u v" and fresh: "dst ! v = INF32"
  shows "bfs_mid mat s u (dst[v := dst ! u + 1], q @ [v])"
    and "potential (dst[v := dst ! u + 1], q @ [v]) < potential (dst, q)"
proof -
  let ?N = "unat (mat_n mat)"
  let ?a = "dst ! u + 1"
  let ?dst = "dst[v := ?a]"
  from mid have b: "bounded ?N 1 dst" and snd: "sound unit_cost mat s dst"
    and s: "s < ?N" and ds: "dst ! s = 0" and u: "u < ?N" and du: "dst ! u \<noteq> INF32"
    and Q1: "\<forall>x\<in>set q. x < ?N \<and> dst ! x \<noteq> INF32 \<and> dst ! u \<le> dst ! x"
    and Q2: "sorted_wrt (\<lambda>x y. dst ! x \<le> dst ! y) q"
    and Q4: "\<forall>x < ?N. dst ! x \<noteq> INF32 \<longrightarrow> dst ! x \<le> dst ! u + 1"
    and Q5: "\<forall>x < ?N. x \<noteq> u \<longrightarrow> dst ! x \<noteq> INF32 \<longrightarrow> x \<in> set q \<or> settled unit_cost mat dst x"
    by (simp_all add: bfs_mid_def)
  have v: "v < ?N" and uv: "u \<noteq> v" using a by (simp_all add: arc_def)
  have len: "length dst = ?N" using b by (simp add: bounded_def)
  have aI: "?a < INF32"
    by (rule bounded_sum_fresh [OF b u du _ _ covered_cap [OF c] v fresh]) simp_all
  have a0: "0 \<le> ?a" by (rule bounded_sum(1) [OF b u du _ _ covered_cap [OF c]]) simp_all
  have keep: "?dst ! x = dst ! x" if "dst ! x \<noteq> INF32" for x
    using that fresh by (cases "x = v") simp_all
  have new: "?dst ! v = ?a" using v len by simp
  have b': "bounded ?N 1 ?dst"
    by (rule bounded_improve [OF b u du _ _ covered_cap [OF c] v refl]) (simp_all add: fresh aI)
  have snd': "sound unit_cost mat s ?dst"
    by (rule sound_improve [OF snd len du a]) (simp add: unit_cost_def)
  have ds': "?dst ! s = 0" using keep [of s] ds by (simp add: INF32_def)
  have du': "?dst ! u = dst ! u" using keep [OF du] .
  have Q1': "\<forall>x\<in>set (q @ [v]). x < ?N \<and> ?dst ! x \<noteq> INF32 \<and> ?dst ! u \<le> ?dst ! x"
  proof
    fix x assume "x \<in> set (q @ [v])"
    then consider "x \<in> set q" | "x = v" by auto
    then show "x < ?N \<and> ?dst ! x \<noteq> INF32 \<and> ?dst ! u \<le> ?dst ! x"
    proof cases
      case 1
      with Q1 have "x < ?N" "dst ! x \<noteq> INF32" "dst ! u \<le> dst ! x" by auto
      then show ?thesis using keep [of x] du' by simp
    next
      case 2
      then show ?thesis using v new aI du' by simp
    qed
  qed
  have Q2': "sorted_wrt (\<lambda>x y. ?dst ! x \<le> ?dst ! y) (q @ [v])"
  proof -
    have "sorted_wrt (\<lambda>x y. ?dst ! x \<le> ?dst ! y) q"
      using Q2
    proof (rule sorted_wrt_mono_rel [rotated])
      fix x y assume "x \<in> set q" "y \<in> set q" "dst ! x \<le> dst ! y"
      then show "?dst ! x \<le> ?dst ! y" using Q1 keep by simp
    qed
    moreover have "\<forall>x\<in>set q. ?dst ! x \<le> ?dst ! v"
    proof
      fix x assume x: "x \<in> set q"
      then have "dst ! x \<le> dst ! u + 1" using Q1 Q4 by simp
      then show "?dst ! x \<le> ?dst ! v" using keep [of x] Q1 x new by simp
    qed
    ultimately show ?thesis by (simp add: sorted_wrt_append)
  qed
  have Q4': "\<forall>x < ?N. ?dst ! x \<noteq> INF32 \<longrightarrow> ?dst ! x \<le> ?dst ! u + 1"
  proof (intro allI impI)
    fix x assume x: "x < ?N" and f: "?dst ! x \<noteq> INF32"
    show "?dst ! x \<le> ?dst ! u + 1"
    proof (cases "x = v")
      case True
      then show ?thesis using new du' by simp
    next
      case False
      then have "dst ! x \<noteq> INF32" using f by simp
      then show ?thesis using Q4 x keep [of x] du' by simp
    qed
  qed
  have Q5': "\<forall>x < ?N. x \<noteq> u \<longrightarrow> ?dst ! x \<noteq> INF32 \<longrightarrow>
               x \<in> set (q @ [v]) \<or> settled unit_cost mat ?dst x"
  proof (intro allI impI)
    fix x assume x: "x < ?N" "x \<noteq> u" and f: "?dst ! x \<noteq> INF32"
    show "x \<in> set (q @ [v]) \<or> settled unit_cost mat ?dst x"
    proof (cases "x = v")
      case True
      then show ?thesis by simp
    next
      case False
      then have fx: "dst ! x \<noteq> INF32" using f by simp
      with Q5 x consider "x \<in> set q" | "settled unit_cost mat dst x" by blast
      then show ?thesis
      proof cases
        case 1
        then show ?thesis by simp
      next
        case 2
        have "settled unit_cost mat ?dst x"
          unfolding settled_def
        proof (intro allI impI)
          fix y assume "arc mat x y"
          with 2 have y: "dst ! y \<noteq> INF32" "dst ! y \<le> dst ! x + unit_cost x y"
            by (simp_all add: settled_def)
          then show "?dst ! y \<noteq> INF32 \<and> ?dst ! y \<le> ?dst ! x + unit_cost x y"
            using keep [of y] keep [OF fx] by simp
        qed
        then show ?thesis by simp
      qed
    qed
  qed
  show "bfs_mid mat s u (?dst, q @ [v])"
    unfolding bfs_mid_def using b' snd' s ds' u du du' Q1' Q2' Q4' Q5' by simp
  show "potential (?dst, q @ [v]) < potential (dst, q)"
    by (rule potential_improve) (use v len a0 aI fresh in simp_all)
qed

lemma bfs_relax_eq:
  assumes c: "covered mat" and mid: "bfs_mid mat s u (dst, q)" and v: "v < unat (mat_n mat)"
  shows "bfs_relax mat u v (dst, q) =
           (if arc mat u v \<and> dst ! v = INF32 then (dst[v := dst ! u + 1], q @ [v])
            else (dst, q))"
proof -
  from mid have b: "bounded (unat (mat_n mat)) 1 dst" and u: "u < unat (mat_n mat)"
    and du: "dst ! u \<noteq> INF32" by (simp_all add: bfs_mid_def)
  have "int32 (dst ! u + 1) = dst ! u + 1"
    by (rule bounded_sum(4) [OF b u du _ _ covered_cap [OF c]]) simp_all
  then show ?thesis using u v by (auto simp: bfs_relax_def arc_def)
qed

lemma bfs_relax_mid:
  assumes c: "covered mat" and mid: "bfs_mid mat s u st" and v: "v < unat (mat_n mat)"
  shows "bfs_mid mat s u (bfs_relax mat u v st)"
    and "potential (bfs_relax mat u v st) \<le> potential st"
    and "\<forall>x. fst st ! x \<noteq> INF32 \<longrightarrow> fst (bfs_relax mat u v st) ! x = fst st ! x"
    and "arc mat u v \<longrightarrow> fst (bfs_relax mat u v st) ! v \<noteq> INF32"
proof -
  obtain dst q where st: "st = (dst, q)" by (cases st)
  note eq = bfs_relax_eq [OF c mid [unfolded st] v]
  from mid st have b: "bounded (unat (mat_n mat)) 1 dst" and u: "u < unat (mat_n mat)"
    and du: "dst ! u \<noteq> INF32" by (simp_all add: bfs_mid_def)
  have len: "length dst = unat (mat_n mat)" using b by (simp add: bounded_def)
  show "bfs_mid mat s u (bfs_relax mat u v st)"
    using bfs_discover(1) [OF c mid [unfolded st]] mid st by (simp add: eq)
  show "potential (bfs_relax mat u v st) \<le> potential st"
    using bfs_discover(2) [OF c mid [unfolded st]] st by (simp add: eq less_imp_le)
  show "\<forall>x. fst st ! x \<noteq> INF32 \<longrightarrow> fst (bfs_relax mat u v st) ! x = fst st ! x"
  proof (intro allI impI)
    fix x assume "fst st ! x \<noteq> INF32"
    then have "dst ! v = INF32 \<Longrightarrow> v \<noteq> x" using st by auto
    then show "fst (bfs_relax mat u v st) ! x = fst st ! x" using st by (simp add: eq)
  qed
  show "arc mat u v \<longrightarrow> fst (bfs_relax mat u v st) ! v \<noteq> INF32"
  proof
    assume a: "arc mat u v"
    show "fst (bfs_relax mat u v st) ! v \<noteq> INF32"
    proof (cases "dst ! v = INF32")
      case True
      have "dst ! u + 1 < INF32"
        by (rule bounded_sum_fresh [OF b u du _ _ covered_cap [OF c] v True]) simp_all
      then show ?thesis using a True st v len by (simp add: eq)
    next
      case False
      then show ?thesis using st by (simp add: eq)
    qed
  qed
qed

lemma bfs_fold:
  assumes c: "covered mat" and mid: "bfs_mid mat s u st" and vs: "set vs \<subseteq> {..<unat (mat_n mat)}"
  shows "bfs_mid mat s u (fold (bfs_relax mat u) vs st) \<and>
         potential (fold (bfs_relax mat u) vs st) \<le> potential st \<and>
         (\<forall>x. fst st ! x \<noteq> INF32 \<longrightarrow> fst (fold (bfs_relax mat u) vs st) ! x = fst st ! x) \<and>
         (\<forall>v\<in>set vs. arc mat u v \<longrightarrow> fst (fold (bfs_relax mat u) vs st) ! v \<noteq> INF32)"
  using mid vs
proof (induction vs arbitrary: st)
  case Nil
  then show ?case by simp
next
  case (Cons v vs)
  let ?st1 = "bfs_relax mat u v st"
  let ?fin = "fold (bfs_relax mat u) vs ?st1"
  have v: "v < unat (mat_n mat)" and vs: "set vs \<subseteq> {..<unat (mat_n mat)}"
    using Cons.prems(2) by simp_all
  note one = bfs_relax_mid [OF c Cons.prems(1) v]
  from Cons.IH [OF one(1) vs]
  have ih: "bfs_mid mat s u ?fin" "potential ?fin \<le> potential ?st1"
    "\<forall>x. fst ?st1 ! x \<noteq> INF32 \<longrightarrow> fst ?fin ! x = fst ?st1 ! x"
    "\<forall>w\<in>set vs. arc mat u w \<longrightarrow> fst ?fin ! w \<noteq> INF32"
    by simp_all
  have frozen: "\<forall>x. fst st ! x \<noteq> INF32 \<longrightarrow> fst ?fin ! x = fst st ! x"
    using one(3) ih(3) by simp
  have head: "arc mat u v \<longrightarrow> fst ?fin ! v \<noteq> INF32"
    using one(4) ih(3) by simp
  show ?case using ih(1) ih(2) one(2) frozen head ih(4) by simp
qed

lemma bfs_step_inv:
  assumes c: "covered mat" and inv: "bfs_inv mat s st" and ne: "snd st \<noteq> []"
  shows "bfs_inv mat s (bfs_step mat st)" and "potential (bfs_step mat st) < potential st"
proof -
  let ?N = "unat (mat_n mat)"
  obtain dst q where st: "st = (dst, q)" by (cases st)
  with ne obtain u q' where q: "q = u # q'" by (cases q) auto
  from inv st have b: "bounded ?N 1 dst" and snd: "sound unit_cost mat s dst"
    and s: "s < ?N" and ds: "dst ! s = 0"
    and I1: "\<forall>x\<in>set q. x < ?N \<and> dst ! x \<noteq> INF32"
    and I2: "sorted_wrt (\<lambda>x y. dst ! x \<le> dst ! y) q"
    and I3: "\<forall>x < ?N. dst ! x \<noteq> INF32 \<longrightarrow> dst ! x \<le> dst ! hd q + 1"
    and I4: "\<forall>x < ?N. dst ! x \<noteq> INF32 \<longrightarrow> x \<in> set q \<or> settled unit_cost mat dst x"
    using q by (simp_all add: bfs_inv_def)
  have mid0: "bfs_mid mat s u (dst, q')"
    unfolding bfs_mid_def using b snd s ds I1 I2 I3 I4 q by auto
  have pot0: "potential (dst, q') < potential st" by (simp add: potential_def st q)
  let ?fin = "fold (bfs_relax mat u) [0..<?N] (dst, q')"
  have step: "bfs_step mat st = ?fin" by (simp add: bfs_step_def st q)
  have "set [0..<?N] \<subseteq> {..<?N}" by auto
  from bfs_fold [OF c mid0 this]
  have mid: "bfs_mid mat s u ?fin" and pot: "potential ?fin \<le> potential (dst, q')"
    and arcs_seen: "\<forall>v\<in>set [0..<?N]. arc mat u v \<longrightarrow> fst ?fin ! v \<noteq> INF32"
    by simp_all
  obtain dst' q'' where fin: "?fin = (dst', q'')" by (cases ?fin)
  from mid fin have b': "bounded ?N 1 dst'" and snd': "sound unit_cost mat s dst'"
    and ds': "dst' ! s = 0" and u: "u < ?N"
    and Q1: "\<forall>x\<in>set q''. x < ?N \<and> dst' ! x \<noteq> INF32 \<and> dst' ! u \<le> dst' ! x"
    and Q2: "sorted_wrt (\<lambda>x y. dst' ! x \<le> dst' ! y) q''"
    and Q4: "\<forall>x < ?N. dst' ! x \<noteq> INF32 \<longrightarrow> dst' ! x \<le> dst' ! u + 1"
    and Q5: "\<forall>x < ?N. x \<noteq> u \<longrightarrow> dst' ! x \<noteq> INF32 \<longrightarrow>
               x \<in> set q'' \<or> settled unit_cost mat dst' x"
    by (simp_all add: bfs_mid_def)
  have su: "settled unit_cost mat dst' u"
    unfolding settled_def
  proof (intro allI impI)
    fix y assume a: "arc mat u y"
    then have y: "y < ?N" by (simp add: arc_def)
    with arcs_seen a fin have f: "dst' ! y \<noteq> INF32" by simp
    with Q4 y show "dst' ! y \<noteq> INF32 \<and> dst' ! y \<le> dst' ! u + unit_cost u y"
      by (simp add: unit_cost_def)
  qed
  have H: "q'' \<noteq> [] \<longrightarrow> (\<forall>x < ?N. dst' ! x \<noteq> INF32 \<longrightarrow> dst' ! x \<le> dst' ! hd q'' + 1)"
  proof (intro impI allI)
    fix x assume "q'' \<noteq> []" and x: "x < ?N" "dst' ! x \<noteq> INF32"
    then have "hd q'' \<in> set q''" by simp
    with Q1 have "dst' ! u \<le> dst' ! hd q''" by blast
    with Q4 x show "dst' ! x \<le> dst' ! hd q'' + 1" by fastforce
  qed
  have R: "\<forall>x < ?N. dst' ! x \<noteq> INF32 \<longrightarrow> x \<in> set q'' \<or> settled unit_cost mat dst' x"
    using Q5 su by blast
  show "bfs_inv mat s (bfs_step mat st)"
    unfolding step fin bfs_inv_def using b' snd' s ds' Q1 Q2 H R by simp
  show "potential (bfs_step mat st) < potential st"
    unfolding step using pot pot0 by simp
qed

lemma bfs_init:
  assumes s: "s < unat (mat_n mat)"
  shows "bfs_inv mat s ((replicate (unat (mat_n mat)) INF32)[s := 0], [s])"
proof -
  let ?N = "unat (mat_n mat)"
  let ?d = "(replicate ?N INF32)[s := 0]"
  have val: "?d ! x = (if x = s then 0 else INF32)" if "x < ?N" for x
    using that s by (simp add: nth_list_update)
  have z: "(0::int) \<noteq> INF32" "(0::int) \<le> INF32" by (simp_all add: INF32_def)
  have sn: "seen ?N ?d = {s}" using s z by (auto simp: seen_def val split: if_splits)
  have b: "bounded ?N 1 ?d"
    unfolding bounded_def sn using val z by (auto split: if_splits)
  have snd: "sound unit_cost mat s ?d"
    unfolding sound_def using val by (auto intro: walk_start split: if_splits)
  show ?thesis
    unfolding bfs_inv_def using b snd s val z by (auto split: if_splits)
qed

lemma bfs_result:
  assumes c: "covered mat" and s: "s < unat (mat_n mat)"
  shows "\<exists>dst. while_option (\<lambda>st. snd st \<noteq> []) (bfs_step mat)
                  ((replicate (unat (mat_n mat)) INF32)[s := 0], [s]) = Some (dst, []) \<and>
                bfs_inv mat s (dst, [])"
proof -
  let ?init = "((replicate (unat (mat_n mat)) INF32)[s := 0], [s])"
  have "\<exists>t. while_option (\<lambda>st. snd st \<noteq> []) (bfs_step mat) ?init = Some t"
  proof (rule measure_while_option_Some [where P = "bfs_inv mat s" and f = potential])
    fix st assume "bfs_inv mat s st" "snd st \<noteq> []"
    then show "bfs_inv mat s (bfs_step mat st) \<and> potential (bfs_step mat st) < potential st"
      using bfs_step_inv [OF c] by blast
  next
    show "bfs_inv mat s ?init" by (rule bfs_init [OF s])
  qed
  then obtain t where t: "while_option (\<lambda>st. snd st \<noteq> []) (bfs_step mat) ?init = Some t" ..
  have "bfs_inv mat s t"
    by (rule while_option_rule [where P = "bfs_inv mat s", OF _ t bfs_init [OF s]])
       (use bfs_step_inv(1) [OF c] in blast)
  moreover have "snd t = []" using while_option_stop [OF t] by simp
  ultimately show ?thesis using t by (cases t) auto
qed

subsection \<open>Dijkstra\<close>

lemma fold_min_mem: "fold (\<lambda>x m. if pair_less x m then x else m) xs m0 \<in> set (m0 # xs)"
  by (induction xs arbitrary: m0) auto

lemma pq_top_mem: "pq \<noteq> [] \<Longrightarrow> pq_top pq \<in> set pq"
  using fold_min_mem [of "tl pq" "hd pq"] by (cases pq) (simp_all add: pq_top_def)

lemma pq_pop_length:
  assumes "pq \<noteq> []"
  shows "length (pq_pop pq) < length pq"
proof -
  have "length (remove1 (pq_top pq) pq) = length pq - 1"
    using pq_top_mem [OF assms] by (simp add: length_remove1)
  moreover have "0 < length pq" using assms by simp
  ultimately show ?thesis by (simp add: pq_pop_def)
qed

lemma pq_pop_subset: "set (pq_pop pq) \<subseteq> set pq"
  by (simp add: pq_pop_def set_remove1_subset)

lemma pq_pop_keeps: "e \<in> set pq \<Longrightarrow> e \<noteq> pq_top pq \<Longrightarrow> e \<in> set (pq_pop pq)"
  by (simp add: pq_pop_def)

lemma dij_improve:
  assumes c: "covered mat" and wl: "weights_le mat W"
    and cap: "int (unat (mat_n mat)) * W \<le> INF32"
    and mid: "dij_mid mat W s u (dst, pq)"
    and a: "arc mat u v" and lt: "dst ! u + weight mat u v < dst ! v"
  shows "dij_mid mat W s u (dst[v := dst ! u + weight mat u v],
                            pq @ [(dst ! u + weight mat u v, v)])"
    and "potential (dst[v := dst ! u + weight mat u v], pq @ [(dst ! u + weight mat u v, v)])
           < potential (dst, pq)"
proof -
  let ?N = "unat (mat_n mat)"
  let ?a = "dst ! u + weight mat u v"
  let ?dst = "dst[v := ?a]"
  let ?pq = "pq @ [(?a, v)]"
  from mid have b: "bounded ?N W dst" and snd: "sound (weight mat) mat s dst"
    and s: "s < ?N" and ds: "dst ! s = 0" and u: "u < ?N" and du: "dst ! u \<noteq> INF32"
    and P1: "\<forall>e\<in>set pq. snd e < ?N \<and> dst ! snd e \<le> fst e \<and> fst e < INF32"
    and P5: "\<forall>x < ?N. x \<noteq> u \<longrightarrow> dst ! x \<noteq> INF32 \<longrightarrow>
               (dst ! x, x) \<in> set pq \<or> settled (weight mat) mat dst x"
    by (simp_all add: dij_mid_def)
  have v: "v < ?N" and uv: "u \<noteq> v" using a by (simp_all add: arc_def)
  have len: "length dst = ?N" using b by (simp add: bounded_def)
  have w: "1 \<le> weight mat u v" "weight mat u v \<le> W"
    using arc_weight [OF c a] wl by simp_all
  have w0: "0 \<le> weight mat u v" using w(1) by simp
  have a0: "0 \<le> ?a" by (rule bounded_sum(1) [OF b u du w0 w(2) cap])
  have dv: "dst ! v \<le> INF32" using b v by (simp add: bounded_def)
  with lt have aI: "?a < INF32" by simp
  have new: "?dst ! v = ?a" using v len by simp
  have other: "?dst ! x = dst ! x" if "x \<noteq> v" for x using that by simp
  have mono: "?dst ! x \<le> dst ! x" for x
    using lt new other [of x] by (cases "x = v") simp_all
  have b': "bounded ?N W ?dst"
    by (rule bounded_improve [OF b u du w0 w(2) cap v refl lt])
  have snd': "sound (weight mat) mat s ?dst"
    by (rule sound_improve [OF snd len du a refl])
  have sv: "s \<noteq> v" using lt a0 ds by auto
  have ds': "?dst ! s = 0" using other [OF sv] ds by simp
  have du': "?dst ! u = dst ! u" using other [OF uv] .
  have P1': "\<forall>e\<in>set ?pq. snd e < ?N \<and> ?dst ! snd e \<le> fst e \<and> fst e < INF32"
  proof
    fix e assume "e \<in> set ?pq"
    then consider "e \<in> set pq" | "e = (?a, v)" by auto
    then show "snd e < ?N \<and> ?dst ! snd e \<le> fst e \<and> fst e < INF32"
    proof cases
      case 1
      with P1 have "snd e < ?N" "dst ! snd e \<le> fst e" "fst e < INF32" by auto
      then show ?thesis using mono [of "snd e"] by simp
    next
      case 2
      then show ?thesis using v new aI by simp
    qed
  qed
  have P5': "\<forall>x < ?N. x \<noteq> u \<longrightarrow> ?dst ! x \<noteq> INF32 \<longrightarrow>
               (?dst ! x, x) \<in> set ?pq \<or> settled (weight mat) mat ?dst x"
  proof (intro allI impI)
    fix x assume x: "x < ?N" "x \<noteq> u" and f: "?dst ! x \<noteq> INF32"
    show "(?dst ! x, x) \<in> set ?pq \<or> settled (weight mat) mat ?dst x"
    proof (cases "x = v")
      case True
      then show ?thesis using new by simp
    next
      case False
      then have fx: "dst ! x \<noteq> INF32" and same: "?dst ! x = dst ! x" using f by simp_all
      with P5 x consider "(dst ! x, x) \<in> set pq" | "settled (weight mat) mat dst x" by blast
      then show ?thesis
      proof cases
        case 1
        then show ?thesis using same by simp
      next
        case 2
        have "settled (weight mat) mat ?dst x"
          unfolding settled_def
        proof (intro allI impI)
          fix y assume "arc mat x y"
          with 2 have y: "dst ! y \<noteq> INF32" "dst ! y \<le> dst ! x + weight mat x y"
            by (simp_all add: settled_def)
          have "?dst ! y \<noteq> INF32" using y(1) aI new other [of y] by (cases "y = v") simp_all
          moreover have "?dst ! y \<le> ?dst ! x + weight mat x y"
            using mono [of y] y(2) same by simp
          ultimately show "?dst ! y \<noteq> INF32 \<and> ?dst ! y \<le> ?dst ! x + weight mat x y" ..
        qed
        then show ?thesis by simp
      qed
    qed
  qed
  show "dij_mid mat W s u (?dst, ?pq)"
    unfolding dij_mid_def using b' snd' s ds' u du du' P1' P5' by simp
  show "potential (?dst, ?pq) < potential (dst, pq)"
    by (rule potential_improve) (use v len a0 lt in simp_all)
qed

lemma dij_relax_eq:
  assumes c: "covered mat" and wl: "weights_le mat W"
    and cap: "int (unat (mat_n mat)) * W \<le> INF32"
    and mid: "dij_mid mat W s u (dst, pq)" and v: "v < unat (mat_n mat)"
  shows "dij_relax mat u v (dst, pq) =
           (if arc mat u v \<and> dst ! u + weight mat u v < dst ! v
            then (dst[v := dst ! u + weight mat u v], pq @ [(dst ! u + weight mat u v, v)])
            else (dst, pq))"
proof (cases "arc mat u v")
  case True
  from mid have b: "bounded (unat (mat_n mat)) W dst" and u: "u < unat (mat_n mat)"
    and du: "dst ! u \<noteq> INF32" by (simp_all add: dij_mid_def)
  have w: "1 \<le> weight mat u v" "weight mat u v \<le> W"
    using arc_weight [OF c True] wl by simp_all
  then have w0: "0 \<le> weight mat u v" by simp
  have "int32 (dst ! u + weight mat u v) = dst ! u + weight mat u v"
    by (rule bounded_sum(4) [OF b u du w0 w(2) cap])
  then show ?thesis using True by (simp add: dij_relax_def arc_def weight_def Let_def)
next
  case False
  from mid have u: "u < unat (mat_n mat)" by (simp add: dij_mid_def)
  from False u v show ?thesis by (auto simp: dij_relax_def arc_def)
qed

lemma dij_relax_mid:
  assumes c: "covered mat" and wl: "weights_le mat W"
    and cap: "int (unat (mat_n mat)) * W \<le> INF32"
    and mid: "dij_mid mat W s u st" and v: "v < unat (mat_n mat)"
  shows "dij_mid mat W s u (dij_relax mat u v st)"
    and "potential (dij_relax mat u v st) \<le> potential st"
    and "\<forall>x. fst (dij_relax mat u v st) ! x \<le> fst st ! x"
    and "fst (dij_relax mat u v st) ! u = fst st ! u"
    and "arc mat u v \<longrightarrow> fst (dij_relax mat u v st) ! v \<le> fst st ! u + weight mat u v \<and>
                        fst (dij_relax mat u v st) ! v < INF32"
proof -
  let ?N = "unat (mat_n mat)"
  obtain dst pq where st: "st = (dst, pq)" by (cases st)
  note mid' = mid [unfolded st]
  note eq = dij_relax_eq [OF c wl cap mid' v]
  from mid' have b: "bounded ?N W dst" and u: "u < ?N"
    and du: "dst ! u \<noteq> INF32" by (simp_all add: dij_mid_def)
  have len: "length dst = ?N" using b by (simp add: bounded_def)
  let ?a = "dst ! u + weight mat u v"
  show "dij_mid mat W s u (dij_relax mat u v st)"
    using dij_improve(1) [OF c wl cap mid'] mid' st by (simp add: eq)
  show "potential (dij_relax mat u v st) \<le> potential st"
    using dij_improve(2) [OF c wl cap mid'] st by (simp add: eq less_imp_le)
  show "\<forall>x. fst (dij_relax mat u v st) ! x \<le> fst st ! x"
  proof
    fix x
    have "?a < dst ! v \<Longrightarrow> dst[v := ?a] ! x \<le> dst ! x"
      using v len by (cases "x = v") simp_all
    then show "fst (dij_relax mat u v st) ! x \<le> fst st ! x" using st by (simp add: eq)
  qed
  show "fst (dij_relax mat u v st) ! u = fst st ! u"
    using st by (auto simp: eq arc_def)
  show "arc mat u v \<longrightarrow> fst (dij_relax mat u v st) ! v \<le> fst st ! u + weight mat u v \<and>
                        fst (dij_relax mat u v st) ! v < INF32"
  proof
    assume a: "arc mat u v"
    have w: "1 \<le> weight mat u v" "weight mat u v \<le> W"
      using arc_weight [OF c a] wl by simp_all
    have dv: "dst ! v \<le> INF32" using b v by (simp add: bounded_def)
    show "fst (dij_relax mat u v st) ! v \<le> fst st ! u + weight mat u v \<and>
          fst (dij_relax mat u v st) ! v < INF32"
    proof (cases "?a < dst ! v")
      case True
      then show ?thesis using a st v len dv by (simp add: eq)
    next
      case False
      have "dst ! v \<noteq> INF32"
      proof
        assume top: "dst ! v = INF32"
        from bounded_sum_fresh [OF b u du w cap v top] False top show False by simp
      qed
      with False dv show ?thesis using st by (simp add: eq)
    qed
  qed
qed

lemma dij_fold:
  assumes c: "covered mat" and wl: "weights_le mat W"
    and cap: "int (unat (mat_n mat)) * W \<le> INF32"
    and mid: "dij_mid mat W s u st" and vs: "set vs \<subseteq> {..<unat (mat_n mat)}"
  shows "dij_mid mat W s u (fold (dij_relax mat u) vs st) \<and>
         potential (fold (dij_relax mat u) vs st) \<le> potential st \<and>
         (\<forall>x. fst (fold (dij_relax mat u) vs st) ! x \<le> fst st ! x) \<and>
         fst (fold (dij_relax mat u) vs st) ! u = fst st ! u \<and>
         (\<forall>v\<in>set vs. arc mat u v \<longrightarrow>
            fst (fold (dij_relax mat u) vs st) ! v \<le> fst st ! u + weight mat u v \<and>
            fst (fold (dij_relax mat u) vs st) ! v < INF32)"
  using mid vs
proof (induction vs arbitrary: st)
  case Nil
  then show ?case by simp
next
  case (Cons v vs)
  let ?st1 = "dij_relax mat u v st"
  let ?fin = "fold (dij_relax mat u) vs ?st1"
  have v: "v < unat (mat_n mat)" and vs: "set vs \<subseteq> {..<unat (mat_n mat)}"
    using Cons.prems(2) by simp_all
  note one = dij_relax_mid [OF c wl cap Cons.prems(1) v]
  from Cons.IH [OF one(1) vs]
  have ih: "dij_mid mat W s u ?fin" "potential ?fin \<le> potential ?st1"
    "\<forall>x. fst ?fin ! x \<le> fst ?st1 ! x" "fst ?fin ! u = fst ?st1 ! u"
    "\<forall>w\<in>set vs. arc mat u w \<longrightarrow>
        fst ?fin ! w \<le> fst ?st1 ! u + weight mat u w \<and> fst ?fin ! w < INF32"
    by simp_all
  have mono: "\<forall>x. fst ?fin ! x \<le> fst st ! x"
  proof
    fix x
    from ih(3) one(3) have "fst ?fin ! x \<le> fst ?st1 ! x" "fst ?st1 ! x \<le> fst st ! x" by simp_all
    then show "fst ?fin ! x \<le> fst st ! x" by simp
  qed
  have same: "fst ?fin ! u = fst st ! u" using ih(4) one(4) by simp
  have head: "arc mat u v \<longrightarrow> fst ?fin ! v \<le> fst st ! u + weight mat u v \<and> fst ?fin ! v < INF32"
  proof
    assume "arc mat u v"
    with one(5) have "fst ?st1 ! v \<le> fst st ! u + weight mat u v" "fst ?st1 ! v < INF32"
      by simp_all
    moreover have "fst ?fin ! v \<le> fst ?st1 ! v" using ih(3) by simp
    ultimately show "fst ?fin ! v \<le> fst st ! u + weight mat u v \<and> fst ?fin ! v < INF32"
      by simp
  qed
  have rest: "\<forall>w\<in>set vs. arc mat u w \<longrightarrow>
        fst ?fin ! w \<le> fst st ! u + weight mat u w \<and> fst ?fin ! w < INF32"
    using ih(5) one(4) by simp
  show ?case using ih(1) ih(2) one(2) mono same head rest by simp
qed

lemma dij_step_inv:
  assumes c: "covered mat" and wl: "weights_le mat W"
    and cap: "int (unat (mat_n mat)) * W \<le> INF32"
    and inv: "dij_inv mat W s st" and ne: "snd st \<noteq> []"
  shows "dij_inv mat W s (dij_step mat st)" and "potential (dij_step mat st) < potential st"
proof -
  let ?N = "unat (mat_n mat)"
  obtain dst pq where st: "st = (dst, pq)" by (cases st)
  obtain d u where top: "pq_top pq = (d, u)" by (cases "pq_top pq")
  have pqne: "pq \<noteq> []" using ne st by simp
  have mem: "(d, u) \<in> set pq" using pq_top_mem [OF pqne] top by simp
  from inv st have b: "bounded ?N W dst" and snd: "sound (weight mat) mat s dst"
    and s: "s < ?N" and ds: "dst ! s = 0"
    and P1: "\<forall>e\<in>set pq. snd e < ?N \<and> dst ! snd e \<le> fst e \<and> fst e < INF32"
    and P5: "\<forall>x < ?N. dst ! x \<noteq> INF32 \<longrightarrow>
               (dst ! x, x) \<in> set pq \<or> settled (weight mat) mat dst x"
    by (simp_all add: dij_inv_def)
  from P1 mem have u: "u < ?N" and dle: "dst ! u \<le> d" and dI: "d < INF32" by auto
  then have du: "dst ! u \<noteq> INF32" by simp
  have P1': "\<forall>e\<in>set (pq_pop pq). snd e < ?N \<and> dst ! snd e \<le> fst e \<and> fst e < INF32"
    using P1 pq_pop_subset [of pq] by blast
  have pot0: "potential (dst, pq_pop pq) < potential st"
    using pq_pop_length [OF pqne] by (simp add: potential_def st)
  show "dij_inv mat W s (dij_step mat st)" and "potential (dij_step mat st) < potential st"
  proof (atomize (full), cases "d > dst ! u")
    case True
    have step: "dij_step mat st = (dst, pq_pop pq)"
      using True by (simp add: dij_step_def st top)
    have "\<forall>x < ?N. dst ! x \<noteq> INF32 \<longrightarrow>
               (dst ! x, x) \<in> set (pq_pop pq) \<or> settled (weight mat) mat dst x"
    proof (intro allI impI)
      fix x assume x: "x < ?N" "dst ! x \<noteq> INF32"
      with P5 consider "(dst ! x, x) \<in> set pq" | "settled (weight mat) mat dst x" by blast
      then show "(dst ! x, x) \<in> set (pq_pop pq) \<or> settled (weight mat) mat dst x"
      proof cases
        case 1
        have "(dst ! x, x) \<noteq> pq_top pq" using True top by auto
        with 1 show ?thesis using pq_pop_keeps by blast
      next
        case 2
        then show ?thesis by simp
      qed
    qed
    then have "dij_inv mat W s (dst, pq_pop pq)"
      unfolding dij_inv_def using b snd s ds P1' by simp
    then show "dij_inv mat W s (dij_step mat st) \<and> potential (dij_step mat st) < potential st"
      using pot0 by (simp add: step)
  next
    case False
    let ?fin = "fold (dij_relax mat u) [0..<?N] (dst, pq_pop pq)"
    have step: "dij_step mat st = ?fin" using False by (simp add: dij_step_def st top)
    have "\<forall>x < ?N. x \<noteq> u \<longrightarrow> dst ! x \<noteq> INF32 \<longrightarrow>
               (dst ! x, x) \<in> set (pq_pop pq) \<or> settled (weight mat) mat dst x"
    proof (intro allI impI)
      fix x assume x: "x < ?N" "x \<noteq> u" "dst ! x \<noteq> INF32"
      with P5 consider "(dst ! x, x) \<in> set pq" | "settled (weight mat) mat dst x" by blast
      then show "(dst ! x, x) \<in> set (pq_pop pq) \<or> settled (weight mat) mat dst x"
      proof cases
        case 1
        have "(dst ! x, x) \<noteq> pq_top pq" using x(2) top by auto
        with 1 show ?thesis using pq_pop_keeps by blast
      next
        case 2
        then show ?thesis by simp
      qed
    qed
    then have mid0: "dij_mid mat W s u (dst, pq_pop pq)"
      unfolding dij_mid_def using b snd s ds u du P1' by simp
    have "set [0..<?N] \<subseteq> {..<?N}" by auto
    from dij_fold [OF c wl cap mid0 this]
    have mid: "dij_mid mat W s u ?fin" and pot: "potential ?fin \<le> potential (dst, pq_pop pq)"
      and same: "fst ?fin ! u = dst ! u"
      and arcs: "\<forall>v\<in>set [0..<?N]. arc mat u v \<longrightarrow>
                   fst ?fin ! v \<le> dst ! u + weight mat u v \<and> fst ?fin ! v < INF32"
      by simp_all
    obtain dst' pq' where fin: "?fin = (dst', pq')" by (cases ?fin)
    from mid fin have b': "bounded ?N W dst'" and snd': "sound (weight mat) mat s dst'"
      and ds': "dst' ! s = 0"
      and Q1: "\<forall>e\<in>set pq'. snd e < ?N \<and> dst' ! snd e \<le> fst e \<and> fst e < INF32"
      and Q5: "\<forall>x < ?N. x \<noteq> u \<longrightarrow> dst' ! x \<noteq> INF32 \<longrightarrow>
                 (dst' ! x, x) \<in> set pq' \<or> settled (weight mat) mat dst' x"
      by (simp_all add: dij_mid_def)
    have su: "settled (weight mat) mat dst' u"
      unfolding settled_def
    proof (intro allI impI)
      fix y assume a: "arc mat u y"
      then have "y \<in> set [0..<?N]" by (simp add: arc_def)
      with arcs a fin same
      show "dst' ! y \<noteq> INF32 \<and> dst' ! y \<le> dst' ! u + weight mat u y" by auto
    qed
    have "\<forall>x < ?N. dst' ! x \<noteq> INF32 \<longrightarrow>
            (dst' ! x, x) \<in> set pq' \<or> settled (weight mat) mat dst' x"
      using Q5 su by blast
    then have "dij_inv mat W s ?fin"
      unfolding fin dij_inv_def using b' snd' s ds' Q1 by simp
    then show "dij_inv mat W s (dij_step mat st) \<and> potential (dij_step mat st) < potential st"
      using pot pot0 by (simp add: step)
  qed
qed

lemma dij_init:
  assumes s: "s < unat (mat_n mat)"
  shows "dij_inv mat W s ((replicate (unat (mat_n mat)) INF32)[s := 0], [(0, s)])"
proof -
  let ?N = "unat (mat_n mat)"
  let ?d = "(replicate ?N INF32)[s := 0]"
  have val: "?d ! x = (if x = s then 0 else INF32)" if "x < ?N" for x
    using that s by (simp add: nth_list_update)
  have z: "(0::int) \<noteq> INF32" "(0::int) \<le> INF32" "(0::int) < INF32" by (simp_all add: INF32_def)
  have sn: "seen ?N ?d = {s}" using s z by (auto simp: seen_def val split: if_splits)
  have b: "bounded ?N W ?d"
    unfolding bounded_def sn using val z by (auto split: if_splits)
  have snd: "sound (weight mat) mat s ?d"
    unfolding sound_def using val by (auto intro: walk_start split: if_splits)
  show ?thesis
    unfolding dij_inv_def using b snd s val z by (auto split: if_splits)
qed

lemma dij_result:
  assumes c: "covered mat" and wl: "weights_le mat W"
    and cap: "int (unat (mat_n mat)) * W \<le> INF32" and s: "s < unat (mat_n mat)"
  shows "\<exists>dst. while_option (\<lambda>st. snd st \<noteq> []) (dij_step mat)
                  ((replicate (unat (mat_n mat)) INF32)[s := 0], [(0, s)]) = Some (dst, []) \<and>
                dij_inv mat W s (dst, [])"
proof -
  let ?init = "((replicate (unat (mat_n mat)) INF32)[s := 0], [(0 :: int, s)])"
  have "\<exists>t. while_option (\<lambda>st. snd st \<noteq> []) (dij_step mat) ?init = Some t"
  proof (rule measure_while_option_Some [where P = "dij_inv mat W s" and f = potential])
    fix st :: "int list \<times> (int \<times> nat) list"
    assume "dij_inv mat W s st" "snd st \<noteq> []"
    then show "dij_inv mat W s (dij_step mat st) \<and> potential (dij_step mat st) < potential st"
      using dij_step_inv [OF c wl cap] by blast
  next
    show "dij_inv mat W s ?init" by (rule dij_init [OF s])
  qed
  then obtain t where t: "while_option (\<lambda>st. snd st \<noteq> []) (dij_step mat) ?init = Some t" ..
  have "dij_inv mat W s t"
    by (rule while_option_rule [where P = "dij_inv mat W s", OF _ t dij_init [OF s]])
       (use dij_step_inv(1) [OF c wl cap] in blast)
  moreover have "snd t = []" using while_option_stop [OF t] by simp
  ultimately show ?thesis using t by (cases t) auto
qed

subsection \<open>Results\<close>

lemma settled_le_walk:
  assumes ds: "d ! s = 0" and z: "(0::int) \<noteq> INF32"
    and st: "\<forall>x < unat (mat_n mat). d ! x \<noteq> INF32 \<longrightarrow> settled c mat d x"
    and s: "s < unat (mat_n mat)" and w: "walk c mat s v k"
  shows "d ! v \<noteq> INF32 \<and> d ! v \<le> k"
  using w
proof (induction rule: walk.induct)
  case walk_start
  then show ?case using ds z by simp
next
  case (walk_arc u k v)
  then have u: "u < unat (mat_n mat)" by (simp add: arc_def)
  with walk_arc.IH st have "settled c mat d u" by simp
  with walk_arc.hyps(2) have "d ! v \<noteq> INF32" "d ! v \<le> d ! u + c u v" by (simp_all add: settled_def)
  with walk_arc.IH show ?case by simp
qed

lemma settled_unique:
  assumes s: "s < unat (mat_n mat)"
    and l1: "length d1 = unat (mat_n mat)" and l2: "length d2 = unat (mat_n mat)"
    and z1: "d1 ! s = 0" and z2: "d2 ! s = 0"
    and s1: "sound c mat s d1" and s2: "sound c mat s d2"
    and t1: "\<forall>x < unat (mat_n mat). d1 ! x \<noteq> INF32 \<longrightarrow> settled c mat d1 x"
    and t2: "\<forall>x < unat (mat_n mat). d2 ! x \<noteq> INF32 \<longrightarrow> settled c mat d2 x"
  shows "d1 = d2"
proof (rule nth_equalityI)
  show "length d1 = length d2" using l1 l2 by simp
next
  fix v assume "v < length d1"
  then have v: "v < unat (mat_n mat)" using l1 by simp
  have z: "(0::int) \<noteq> INF32" by (simp add: INF32_def)
  have a: "d2 ! v \<noteq> INF32 \<and> d2 ! v \<le> d1 ! v" if "d1 ! v \<noteq> INF32"
  proof -
    have "walk c mat s v (d1 ! v)" using s1 v that by (simp add: sound_def)
    then show ?thesis by (rule settled_le_walk [OF z2 z t2 s])
  qed
  have b: "d1 ! v \<noteq> INF32 \<and> d1 ! v \<le> d2 ! v" if "d2 ! v \<noteq> INF32"
  proof -
    have "walk c mat s v (d2 ! v)" using s2 v that by (simp add: sound_def)
    then show ?thesis by (rule settled_le_walk [OF z1 z t1 s])
  qed
  show "d1 ! v = d2 ! v"
  proof (cases "d1 ! v = INF32")
    case True
    have "d2 ! v = INF32"
    proof (rule ccontr)
      assume "d2 ! v \<noteq> INF32"
      from b [OF this] True show False by simp
    qed
    with True show ?thesis by simp
  next
    case False
    from a [OF False] have f2: "d2 ! v \<noteq> INF32" and le: "d2 ! v \<le> d1 ! v" by simp_all
    from b [OF f2] le show ?thesis by simp
  qed
qed

lemma walk_unit:
  assumes c: "covered mat" and uw: "unit_weights mat"
  shows "walk (weight mat) mat s v d \<Longrightarrow> walk unit_cost mat s v d"
proof (induction rule: walk.induct)
  case walk_start
  then show ?case by (rule walk.walk_start)
next
  case (walk_arc u d v)
  have "weight mat u v = unit_cost u v"
    using arc_weight(3) [OF c walk_arc.hyps(2) uw] by (simp add: unit_cost_def)
  with walk.walk_arc [OF walk_arc.IH walk_arc.hyps(2)] show ?case by simp
qed

lemma settled_unit:
  assumes c: "covered mat" and uw: "unit_weights mat"
  shows "settled (weight mat) mat d x \<Longrightarrow> settled unit_cost mat d x"
  unfolding settled_def
proof (intro allI impI)
  fix y assume h: "\<forall>y. arc mat x y \<longrightarrow> d ! y \<noteq> INF32 \<and> d ! y \<le> d ! x + weight mat x y"
    and a: "arc mat x y"
  have "weight mat x y = unit_cost x y"
    using arc_weight(3) [OF c a uw] by (simp add: unit_cost_def)
  moreover from h a have "d ! y \<noteq> INF32 \<and> d ! y \<le> d ! x + weight mat x y" by blast
  ultimately show "d ! y \<noteq> INF32 \<and> d ! y \<le> d ! x + unit_cost x y" by simp
qed

lemma unit_weights_le: "unit_weights mat \<Longrightarrow> weights_le mat 1"
  by (auto simp: unit_weights_def weights_le_def NO_EDGE_def)

lemma start_index: "start < mat_n mat \<Longrightarrow> unat start < unat (mat_n mat)"
  by (simp add: word_less_nat_alt)

lemma shortest_path_bfs:
  assumes c: "covered mat" and s: "start < mat_n mat"
  shows "\<exists>dst. shortest_path mat start False = Some (Inr dst) \<and>
                bfs_inv mat (unat start) (dst, [])"
proof -
  from bfs_result [OF c start_index [OF s]] obtain dst where
    "while_option (\<lambda>st. snd st \<noteq> []) (bfs_step mat)
       ((replicate (unat (mat_n mat)) INF32)[unat start := 0], [unat start]) = Some (dst, [])"
    and "bfs_inv mat (unat start) (dst, [])" by blast
  then show ?thesis using s by (simp add: shortest_path_def Let_def)
qed

lemma shortest_path_dij:
  assumes c: "covered mat" and wl: "weights_le mat W"
    and cap: "int (unat (mat_n mat)) * W \<le> INF32" and s: "start < mat_n mat"
  shows "\<exists>dst. shortest_path mat start True = Some (Inr dst) \<and>
                dij_inv mat W (unat start) (dst, [])"
proof -
  from dij_result [OF c wl cap start_index [OF s]] obtain dst where
    "while_option (\<lambda>st. snd st \<noteq> []) (dij_step mat)
       ((replicate (unat (mat_n mat)) INF32)[unat start := 0], [(0, unat start)]) = Some (dst, [])"
    and "dij_inv mat W (unat start) (dst, [])" by blast
  then show ?thesis using s by (simp add: shortest_path_def Let_def)
qed


text \<open>
  C5: on a matrix whose buffer holds \<open>n \<times> n\<close> cells and whose non-sentinel entries are
  all \<open>1\<close>, for every valid start node the breadth-first search and Dijkstra's algorithm
  both end and return the same distance vector.
\<close>

theorem C5_bfs_dijkstra:
  assumes c: "covered mat" and uw: "unit_weights mat" and s: "start < mat_n mat"
  shows "\<exists>dst. shortest_path mat start False = Some (Inr dst) \<and>
                shortest_path mat start True = Some (Inr dst)"
proof -
  let ?N = "unat (mat_n mat)"
  let ?s = "unat start"
  from shortest_path_bfs [OF c s] obtain d1 where
    r1: "shortest_path mat start False = Some (Inr d1)"
    and i1: "bfs_inv mat ?s (d1, [])" by blast
  from shortest_path_dij [OF c unit_weights_le [OF uw] covered_cap [OF c] s] obtain d2 where
    r2: "shortest_path mat start True = Some (Inr d2)"
    and i2: "dij_inv mat 1 ?s (d2, [])" by blast
  from i1 have l1: "length d1 = ?N" and z1: "d1 ! ?s = 0" and s1: "sound unit_cost mat ?s d1"
    and t1: "\<forall>x < ?N. d1 ! x \<noteq> INF32 \<longrightarrow> settled unit_cost mat d1 x"
    by (simp_all add: bfs_inv_def bounded_def)
  from i2 have l2: "length d2 = ?N" and z2: "d2 ! ?s = 0" and s2': "sound (weight mat) mat ?s d2"
    and t2': "\<forall>x < ?N. d2 ! x \<noteq> INF32 \<longrightarrow> settled (weight mat) mat d2 x"
    by (simp_all add: dij_inv_def bounded_def)
  have s2: "sound unit_cost mat ?s d2"
    using s2' walk_unit [OF c uw] unfolding sound_def by blast
  have t2: "\<forall>x < ?N. d2 ! x \<noteq> INF32 \<longrightarrow> settled unit_cost mat d2 x"
    using t2' settled_unit [OF c uw] by blast
  have "d1 = d2"
    by (rule settled_unique [OF start_index [OF s] l1 l2 z1 z2 s1 s2 t1 t2])
  with r1 r2 show ?thesis by simp
qed

lemma rep16: "replicate 16 (0::u16) = [0, 0, 0, 0, 0, 0, 0, 0, 0, 0, 0, 0, 0, 0, 0, 0]"
  by (simp add: numeral_eq_Suc)

lemma rep_dist: "replicate 4 x = [x, x, x, x]" "replicate 3 x = [x, x, x]"
  by (simp_all add: numeral_eq_Suc)

lemma mat_path_eq:
  "mat_path = \<lparr>mat_n = 4, mat_data = [0, 1, 0, 0, 1, 0, 1, 0, 0, 1, 0, 1, 0, 0, 1, 0]\<rparr>"
  by (simp add: mat_path_def bi_set_def construct_def check_bounds_def cell_def word_le_nat_alt
        rep16 nth_Cons' list_update_code)

lemma path_bfs: "shortest_path mat_path 0 False = Some (Inr [0, 1, 2, 3])"
  by (simp add: shortest_path_def mat_path_eq rep_dist while_option_unfold bfs_step_def
        bfs_relax_def mat_at_def cell_def NO_EDGE_def INF32_def int32_def upt_rec nth_Cons'
        list_update_code)

lemma path_dijkstra: "shortest_path mat_path 0 True = Some (Inr [0, 1, 2, 3])"
  by (simp add: shortest_path_def mat_path_eq rep_dist while_option_unfold dij_step_def
        dij_relax_def pq_top_def pq_pop_def pair_less_def mat_at_def cell_def NO_EDGE_def
        INF32_def int32_def upt_rec nth_Cons' list_update_code Let_def)


theorem C5_bfs_dijkstra_witness:
  "covered mat_path \<and> (0::u32) < mat_n mat_path \<and>
   shortest_path mat_path 0 False = Some (Inr [0, 1, 2, 3]) \<and>
   shortest_path mat_path 0 True = Some (Inr [0, 1, 2, 3])"
proof -
  have c: "covered mat_path" by (simp add: covered_def mat_path_eq)
  have u: "unit_weights mat_path" by (simp add: unit_weights_def mat_path_eq NO_EDGE_def)
  have s: "(0::u32) < mat_n mat_path" by (simp add: mat_path_eq)
  from C5_bfs_dijkstra [OF c u s] c s path_bfs path_dijkstra show ?thesis by simp
qed


section \<open>Betweenness centrality\<close>

subsection \<open>Emptying the stack\<close>

lemma fold_update_other:
  "x \<notin> set ps \<Longrightarrow> fold (\<lambda>v d. d[v := F d v]) ps d ! x = d ! x"
  by (induction ps arbitrary: d) auto

lemma fst_pop_node:
  "fst (pop_node fp t s w (delta, c)) =
     fold (\<lambda>v d. d[v := fp_add fp (d ! v)
                         (fp_mul fp
                            (fp_div fp (fp_of_u32 fp (t_sigma t ! v)) (fp_of_u32 fp (t_sigma t ! w)))
                            (fp_add fp (fp_one fp) (d ! w)))])
       (t_preds t ! w) delta"
  by (simp add: pop_node_def)

lemma pop_node_delta:
  "x \<notin> set (t_preds t ! w) \<Longrightarrow> fst (pop_node fp t s w (delta, c)) ! x = delta ! x"
  unfolding fst_pop_node by (rule fold_update_other)

lemma pop_node_delta_indep:
  "fst (pop_node fp t s w (delta, c)) = fst (pop_node fp t s w (delta, c'))"
  by (simp only: fst_pop_node)

lemma pop_node_centrality:
  "length (snd (pop_node fp t s w (delta, c))) = length c"
  "x \<noteq> w \<Longrightarrow> snd (pop_node fp t s w (delta, c)) ! x = c ! x"
  "w = s \<Longrightarrow> snd (pop_node fp t s w (delta, c)) = c"
  "w \<noteq> s \<Longrightarrow> w < length c \<Longrightarrow>
     snd (pop_node fp t s w (delta, c)) ! w =
       fp_add fp (c ! w) (fst (pop_node fp t s w (delta, c)) ! w)"
  by (simp_all add: pop_node_def)

lemma fold_pop_delta_indep:
  "fst (fold (pop_node fp t s) ws (delta, c)) = fst (fold (pop_node fp t s) ws (delta, c'))"
proof (induction ws arbitrary: delta c c')
  case Nil
  then show ?case by simp
next
  case (Cons w ws)
  obtain d1 c1 where a: "pop_node fp t s w (delta, c) = (d1, c1)" by (cases "pop_node fp t s w (delta, c)")
  obtain d2 c2 where b: "pop_node fp t s w (delta, c') = (d2, c2)" by (cases "pop_node fp t s w (delta, c')")
  have "d1 = d2" using pop_node_delta_indep [of fp t s w delta c c'] a b by simp
  then show ?case using Cons.IH [of d1 c1 c2] a b by simp
qed

lemma fold_pop_node:
  assumes pr: "\<forall>w<N. \<forall>v\<in>set (t_preds t ! w). v < N \<and> t_dist t ! v < t_dist t ! w"
    and ws: "distinct ws" "set ws \<subseteq> {..<N}" "stack_sorted (t_dist t) ws"
    and len: "length c = N"
  shows "length (snd (fold (pop_node fp t s) ws (delta, c))) = N \<and>
         (\<forall>x<N. snd (fold (pop_node fp t s) ws (delta, c)) ! x =
                  (if x \<in> set ws \<and> x \<noteq> s
                   then fp_add fp (c ! x) (fst (fold (pop_node fp t s) ws (delta, c)) ! x)
                   else c ! x)) \<and>
         (\<forall>x. (\<forall>y\<in>set ws. t_dist t ! y \<le> t_dist t ! x) \<longrightarrow>
               fst (fold (pop_node fp t s) ws (delta, c)) ! x = delta ! x)"
  using ws len
proof (induction ws arbitrary: delta c)
  case Nil
  then show ?case by simp
next
  case (Cons w ws)
  obtain d1 c1 where p: "pop_node fp t s w (delta, c) = (d1, c1)"
    by (cases "pop_node fp t s w (delta, c)")
  let ?D = "fst (fold (pop_node fp t s) ws (d1, c1))"
  let ?C = "snd (fold (pop_node fp t s) ws (d1, c1))"
  have w: "w < N" and wn: "w \<notin> set ws" and dws: "distinct ws" and sub: "set ws \<subseteq> {..<N}"
    using Cons.prems by simp_all
  have srt: "stack_sorted (t_dist t) ws" and below: "\<forall>y\<in>set ws. t_dist t ! y \<le> t_dist t ! w"
    using Cons.prems(3) by (simp_all add: stack_sorted_def)
  have l1: "length c1 = N" using pop_node_centrality(1) [of fp t s w delta c] p Cons.prems(4) by simp
  from Cons.IH [OF dws sub srt l1, of d1]
  have ih1: "length ?C = N"
    and ih2: "\<forall>x<N. ?C ! x = (if x \<in> set ws \<and> x \<noteq> s then fp_add fp (c1 ! x) (?D ! x) else c1 ! x)"
    and ih3: "\<forall>x. (\<forall>y\<in>set ws. t_dist t ! y \<le> t_dist t ! x) \<longrightarrow> ?D ! x = d1 ! x"
    by simp_all
  have fold_eq: "fold (pop_node fp t s) (w # ws) (delta, c) = fold (pop_node fp t s) ws (d1, c1)"
    using p by simp
  have c1_other: "c1 ! x = c ! x" if "x \<noteq> w" for x
    using pop_node_centrality(2) [OF that, of fp t s delta c] p by simp
  have Dw: "?D ! w = d1 ! w" using ih3 below by simp
  have part2: "\<forall>x<N. ?C ! x =
                  (if x \<in> set (w # ws) \<and> x \<noteq> s then fp_add fp (c ! x) (?D ! x) else c ! x)"
  proof (intro allI impI)
    fix x assume x: "x < N"
    show "?C ! x = (if x \<in> set (w # ws) \<and> x \<noteq> s then fp_add fp (c ! x) (?D ! x) else c ! x)"
    proof (cases "x = w")
      case True
      have cw: "?C ! w = c1 ! w" using ih2 w wn by simp
      show ?thesis
      proof (cases "w = s")
        case True
        then have "c1 = c" using pop_node_centrality(3) [of w s fp t delta c] p by simp
        with cw True \<open>x = w\<close> show ?thesis by simp
      next
        case False
        have "c1 ! w = fp_add fp (c ! w) (d1 ! w)"
          using pop_node_centrality(4) [OF False, of c fp t delta] p w Cons.prems(4) by simp
        with cw Dw False \<open>x = w\<close> show ?thesis by simp
      qed
    next
      case False
      with ih2 x c1_other [OF False] show ?thesis by simp
    qed
  qed
  have part3: "\<forall>x. (\<forall>y\<in>set (w # ws). t_dist t ! y \<le> t_dist t ! x) \<longrightarrow> ?D ! x = delta ! x"
  proof (intro allI impI)
    fix x assume far: "\<forall>y\<in>set (w # ws). t_dist t ! y \<le> t_dist t ! x"
    then have "?D ! x = d1 ! x" using ih3 by simp
    moreover have "x \<notin> set (t_preds t ! w)"
    proof
      assume "x \<in> set (t_preds t ! w)"
      with pr w have "t_dist t ! x < t_dist t ! w" by blast
      with far show False by simp
    qed
    then have "d1 ! x = delta ! x" using pop_node_delta [of x t w fp s delta c] p by simp
    ultimately show "?D ! x = delta ! x" by simp
  qed
  show ?case unfolding fold_eq using ih1 part2 part3 by blast
qed

lemma accumulate_closed:
  assumes ok: "stack_ok N t" and len: "length c = N"
  shows "length (snd (accumulate fp N t s c)) = N"
    and "\<forall>x<N. snd (accumulate fp N t s c) ! x =
           (if x \<in> set (t_stack t) \<and> x \<noteq> s
            then fp_add fp (c ! x) (fst (accumulate fp N t s c) ! x) else c ! x)"
proof -
  from ok have pr: "\<forall>w<N. \<forall>v\<in>set (t_preds t ! w). v < N \<and> t_dist t ! v < t_dist t ! w"
    and ws: "distinct (t_stack t)" "set (t_stack t) \<subseteq> {..<N}" "stack_sorted (t_dist t) (t_stack t)"
    by (simp_all add: stack_ok_def)
  note f = fold_pop_node [OF pr ws len, of fp s "replicate N (fp_zero fp)"]
  show "length (snd (accumulate fp N t s c)) = N" using f by (simp add: accumulate_def)
  show "\<forall>x<N. snd (accumulate fp N t s c) ! x =
           (if x \<in> set (t_stack t) \<and> x \<noteq> s
            then fp_add fp (c ! x) (fst (accumulate fp N t s c) ! x) else c ! x)"
    using f by (simp add: accumulate_def)
qed

subsection \<open>Unweighted traversal\<close>

lemma proj_bfs_relax: "proj (bc_bfs_relax mat v w st) = bfs_relax mat v w (proj st)"
  by (cases st) (simp add: proj_def bc_bfs_relax_def bfs_relax_def)

lemma proj_bfs_fold: "proj (fold (bc_bfs_relax mat v) ws st) = fold (bfs_relax mat v) ws (proj st)"
  by (induction ws arbitrary: st) (simp_all add: proj_bfs_relax)

lemma proj_bfs_step: "proj (bc_bfs_step mat st) = bfs_step mat (proj st)"
  by (cases st) (simp add: bc_bfs_step_def bfs_step_def proj_bfs_fold, simp add: proj_def)

lemma bc_bfs_relax_shape:
  "t_stack (fst (bc_bfs_relax mat v w st)) = t_stack (fst st)"
  "length (t_preds (fst (bc_bfs_relax mat v w st))) = length (t_preds (fst st))"
  "snd (bc_bfs_relax mat v w st) = snd st \<or>
     (snd (bc_bfs_relax mat v w st) = snd st @ [w] \<and> t_dist (fst st) ! w = INF32)"
  "t_preds (fst (bc_bfs_relax mat v w st)) = t_preds (fst st) \<or>
     (t_preds (fst (bc_bfs_relax mat v w st)) = (t_preds (fst st))[w := t_preds (fst st) ! w @ [v]] \<and>
      t_dist (fst (bc_bfs_relax mat v w st)) ! w =
        int32 (t_dist (fst (bc_bfs_relax mat v w st)) ! v + 1) \<and>
      v \<noteq> w \<and> mat_at mat v w \<noteq> NO_EDGE)"
  by (cases st; simp add: bc_bfs_relax_def)+

lemma bfs_inv_mid:
  assumes "bfs_inv mat s (dst, v # q)"
  shows "bfs_mid mat s v (dst, q)"
  using assms unfolding bfs_inv_def bfs_mid_def by auto

lemma stack_sorted_frozen:
  assumes "stack_sorted dst stack" and "\<forall>x\<in>set stack. dst' ! x = dst ! x"
  shows "stack_sorted dst' stack"
  using assms unfolding stack_sorted_def
  by (auto elim!: sorted_wrt_mono_rel [rotated])

lemma bc_bfs_relax_mid:
  assumes c: "covered mat" and mid: "bc_bfs_mid mat s v st" and w: "w < unat (mat_n mat)"
  shows "bc_bfs_mid mat s v (bc_bfs_relax mat v w st)"
proof -
  let ?N = "unat (mat_n mat)"
  let ?r = "bc_bfs_relax mat v w st"
  obtain t q where st: "st = (t, q)" by (cases st)
  obtain t' q' where r: "?r = (t', q')" by (cases ?r)
  from mid st have m: "bfs_mid mat s v (t_dist t, q)" and lp: "length (t_preds t) = ?N"
    and dq: "distinct (t_stack t @ q)" and ss: "stack_sorted (t_dist t) (t_stack t)"
    and sb: "\<forall>x\<in>set (t_stack t). x < ?N \<and> t_dist t ! x \<noteq> INF32 \<and> t_dist t ! x \<le> t_dist t ! v"
    and po: "\<forall>w < ?N. \<forall>u\<in>set (t_preds t ! w).
            u < ?N \<and> t_dist t ! u \<noteq> INF32 \<and> t_dist t ! w \<noteq> INF32 \<and> t_dist t ! u < t_dist t ! w"
    by (simp_all add: bc_bfs_mid_def)
  have pr: "proj ?r = bfs_relax mat v w (t_dist t, q)"
    using proj_bfs_relax [of mat v w st] st by (simp add: proj_def)
  then have pr': "(t_dist t', q') = bfs_relax mat v w (t_dist t, q)" using r by (simp add: proj_def)
  note one = bfs_relax_mid [OF c m w, folded pr']
  have m': "bfs_mid mat s v (t_dist t', q')" using one(1) .
  have frozen: "t_dist t' ! x = t_dist t ! x" if "t_dist t ! x \<noteq> INF32" for x
    using one(3) that by simp
  have arcfin: "arc mat v w \<Longrightarrow> t_dist t' ! w \<noteq> INF32" using one(4) by simp
  from m have v: "v < ?N" and dv: "t_dist t ! v \<noteq> INF32"
    and qf: "\<forall>x\<in>set q. t_dist t ! x \<noteq> INF32" by (simp_all add: bfs_mid_def)
  from m' have b': "bounded ?N 1 (t_dist t')" and dv': "t_dist t' ! v \<noteq> INF32"
    by (simp_all add: bfs_mid_def)
  have r2: "bc_bfs_relax mat v w (t, q) = (t', q')" using r st by simp
  note shape = bc_bfs_relax_shape [of mat v w "(t, q)", unfolded r2, simplified]
  have st': "t_stack t' = t_stack t" using shape(1) .
  have lp': "length (t_preds t') = ?N" using shape(2) lp by simp
  have dq': "distinct (t_stack t' @ q')"
  proof -
    from shape(3) consider "q' = q" | "q' = q @ [w]" "t_dist t ! w = INF32" by blast
    then show ?thesis
    proof cases
      case 1
      then show ?thesis using dq st' by simp
    next
      case 2
      then have "w \<notin> set (t_stack t)" "w \<notin> set q" using sb qf by auto
      then show ?thesis using dq st' 2(1) by simp
    qed
  qed
  have ss': "stack_sorted (t_dist t') (t_stack t')"
    unfolding st' using ss by (rule stack_sorted_frozen) (use sb frozen in simp)
  have sb': "\<forall>x\<in>set (t_stack t'). x < ?N \<and> t_dist t' ! x \<noteq> INF32 \<and> t_dist t' ! x \<le> t_dist t' ! v"
    unfolding st' using sb frozen dv by simp
  have po': "\<forall>w0 < ?N. \<forall>u\<in>set (t_preds t' ! w0).
            u < ?N \<and> t_dist t' ! u \<noteq> INF32 \<and> t_dist t' ! w0 \<noteq> INF32 \<and>
            t_dist t' ! u < t_dist t' ! w0"
  proof (intro allI impI ballI)
    fix w0 u assume w0: "w0 < ?N" and u: "u \<in> set (t_preds t' ! w0)"
    have old: "u < ?N \<and> t_dist t' ! u \<noteq> INF32 \<and> t_dist t' ! w0 \<noteq> INF32 \<and>
               t_dist t' ! u < t_dist t' ! w0" if "u \<in> set (t_preds t ! w0)"
      using po w0 that frozen by simp
    from shape(4) consider "t_preds t' = t_preds t"
      | "t_preds t' = (t_preds t)[w := t_preds t ! w @ [v]]"
        "t_dist t' ! w = int32 (t_dist t' ! v + 1)" "v \<noteq> w" "mat_at mat v w \<noteq> NO_EDGE"
      by blast
    then show "u < ?N \<and> t_dist t' ! u \<noteq> INF32 \<and> t_dist t' ! w0 \<noteq> INF32 \<and>
               t_dist t' ! u < t_dist t' ! w0"
    proof cases
      case 1
      then show ?thesis using old u by simp
    next
      case 2
      show ?thesis
      proof (cases "w0 = w \<and> u = v")
        case True
        have a: "arc mat v w" using v w 2(3,4) by (simp add: arc_def)
        have "int32 (t_dist t' ! v + 1) = t_dist t' ! v + 1"
          by (rule bounded_sum(4) [OF b' v dv' _ _ covered_cap [OF c]]) simp_all
        then have "t_dist t' ! v < t_dist t' ! w" using 2(2) by simp
        then show ?thesis using True v dv' arcfin [OF a] by simp
      next
        case False
        then have "u \<in> set (t_preds t ! w0)"
          using u 2(1) lp w by (cases "w0 = w") auto
        then show ?thesis by (rule old)
      qed
    qed
  qed
  show ?thesis
    unfolding r bc_bfs_mid_def using m' lp' dq' ss' sb' po' by simp
qed

lemma bc_bfs_fold:
  assumes c: "covered mat" and mid: "bc_bfs_mid mat s v st" and ws: "set ws \<subseteq> {..<unat (mat_n mat)}"
  shows "bc_bfs_mid mat s v (fold (bc_bfs_relax mat v) ws st)"
  using mid ws
proof (induction ws arbitrary: st)
  case Nil
  then show ?case by simp
next
  case (Cons w ws)
  then have "bc_bfs_mid mat s v (bc_bfs_relax mat v w st)"
    using bc_bfs_relax_mid [OF c] by simp
  with Cons show ?case by simp
qed

lemma bc_bfs_step_inv:
  assumes c: "covered mat" and inv: "bc_bfs_inv mat s st" and ne: "snd st \<noteq> []"
  shows "bc_bfs_inv mat s (bc_bfs_step mat st)"
    and "potential (proj (bc_bfs_step mat st)) < potential (proj st)"
proof -
  let ?N = "unat (mat_n mat)"
  obtain t q where st: "st = (t, q)" by (cases st)
  with ne obtain v q' where q: "q = v # q'" by (cases q) auto
  from inv st have i: "bfs_inv mat s (t_dist t, q)" and lp: "length (t_preds t) = ?N"
    and dq: "distinct (t_stack t @ q)" and ss: "stack_sorted (t_dist t) (t_stack t)"
    and sb: "\<forall>x\<in>set (t_stack t). x < ?N \<and> t_dist t ! x \<noteq> INF32 \<and>
                               (\<forall>y\<in>set q. t_dist t ! x \<le> t_dist t ! y)"
    and po: "\<forall>w < ?N. \<forall>u\<in>set (t_preds t ! w).
            u < ?N \<and> t_dist t ! u \<noteq> INF32 \<and> t_dist t ! w \<noteq> INF32 \<and> t_dist t ! u < t_dist t ! w"
    by (simp_all add: bc_bfs_inv_def)
  have pst: "proj st = (t_dist t, q)" by (simp add: proj_def st)
  have ne': "snd (proj st) \<noteq> []" using ne by (simp add: proj_def)
  have i': "bfs_inv mat s (proj st)" using i pst by simp
  note base = bfs_step_inv [OF c i' ne']
  show "potential (proj (bc_bfs_step mat st)) < potential (proj st)"
    using base(2) by (simp add: proj_bfs_step)
  let ?t1 = "t\<lparr>t_stack := v # t_stack t\<rparr>"
  let ?fin = "fold (bc_bfs_relax mat v) [0..<?N] (?t1, q')"
  have step: "bc_bfs_step mat st = ?fin" by (simp add: bc_bfs_step_def st q)
  have m0: "bfs_mid mat s v (t_dist t, q')" using i q by (intro bfs_inv_mid) simp
  from i q have v: "v < ?N" and dv: "t_dist t ! v \<noteq> INF32" by (simp_all add: bfs_inv_def)
  have below: "\<forall>x\<in>set (t_stack t). t_dist t ! x \<le> t_dist t ! v" using sb q by simp
  have mid0: "bc_bfs_mid mat s v (?t1, q')"
    unfolding bc_bfs_mid_def using m0 lp dq ss sb po q v dv below
    by (auto simp: stack_sorted_def)
  have "set [0..<?N] \<subseteq> {..<?N}" by auto
  from bc_bfs_fold [OF c mid0 this] have mid: "bc_bfs_mid mat s v ?fin" .
  obtain t' q'' where fin: "?fin = (t', q'')" by (cases ?fin)
  from mid fin have m': "bfs_mid mat s v (t_dist t', q'')" and lp': "length (t_preds t') = ?N"
    and dq': "distinct (t_stack t' @ q'')" and ss': "stack_sorted (t_dist t') (t_stack t')"
    and sb': "\<forall>x\<in>set (t_stack t'). x < ?N \<and> t_dist t' ! x \<noteq> INF32 \<and>
                                t_dist t' ! x \<le> t_dist t' ! v"
    and po': "\<forall>w < ?N. \<forall>u\<in>set (t_preds t' ! w).
            u < ?N \<and> t_dist t' ! u \<noteq> INF32 \<and> t_dist t' ! w \<noteq> INF32 \<and>
            t_dist t' ! u < t_dist t' ! w"
    by (simp_all add: bc_bfs_mid_def)
  have "proj (bc_bfs_step mat st) = (t_dist t', q'')" by (simp add: step fin proj_def)
  then have i'': "bfs_inv mat s (t_dist t', q'')"
    using base(1) by (simp only: proj_bfs_step [symmetric])
  from m' have head: "\<forall>y\<in>set q''. t_dist t' ! v \<le> t_dist t' ! y" by (simp add: bfs_mid_def)
  have sb'': "\<forall>x\<in>set (t_stack t'). x < ?N \<and> t_dist t' ! x \<noteq> INF32 \<and>
                               (\<forall>y\<in>set q''. t_dist t' ! x \<le> t_dist t' ! y)"
  proof
    fix x assume "x \<in> set (t_stack t')"
    with sb' have x: "x < ?N" "t_dist t' ! x \<noteq> INF32" "t_dist t' ! x \<le> t_dist t' ! v" by simp_all
    have "\<forall>y\<in>set q''. t_dist t' ! x \<le> t_dist t' ! y"
    proof
      fix y assume "y \<in> set q''"
      with head have "t_dist t' ! v \<le> t_dist t' ! y" by simp
      with x(3) show "t_dist t' ! x \<le> t_dist t' ! y" by simp
    qed
    with x show "x < ?N \<and> t_dist t' ! x \<noteq> INF32 \<and> (\<forall>y\<in>set q''. t_dist t' ! x \<le> t_dist t' ! y)"
      by simp
  qed
  show "bc_bfs_inv mat s (bc_bfs_step mat st)"
    unfolding step fin bc_bfs_inv_def using i'' lp' dq' ss' sb'' po' by simp
qed

lemma bc_bfs_init:
  assumes s: "s < unat (mat_n mat)"
  shows "bc_bfs_inv mat s (trav_init (unat (mat_n mat)) s, [s])"
  unfolding bc_bfs_inv_def using bfs_init [OF s]
  by (simp add: trav_init_def stack_sorted_def)

lemma bc_bfs_result:
  assumes c: "covered mat" and s: "s < unat (mat_n mat)"
  shows "\<exists>t. traverse mat False s = Some t \<and> bc_bfs_inv mat s (t, [])"
proof -
  let ?init = "(trav_init (unat (mat_n mat)) s, [s])"
  have "\<exists>r. while_option (\<lambda>st. snd st \<noteq> []) (bc_bfs_step mat) ?init = Some r"
  proof (rule measure_while_option_Some
      [where P = "bc_bfs_inv mat s" and f = "\<lambda>st. potential (proj st)"])
    fix st :: "trav \<times> nat list"
    assume "bc_bfs_inv mat s st" "snd st \<noteq> []"
    then show "bc_bfs_inv mat s (bc_bfs_step mat st) \<and>
               potential (proj (bc_bfs_step mat st)) < potential (proj st)"
      using bc_bfs_step_inv [OF c] by blast
  next
    show "bc_bfs_inv mat s ?init" by (rule bc_bfs_init [OF s])
  qed
  then obtain r where r: "while_option (\<lambda>st. snd st \<noteq> []) (bc_bfs_step mat) ?init = Some r" ..
  have "bc_bfs_inv mat s r"
    by (rule while_option_rule [where P = "bc_bfs_inv mat s", OF _ r bc_bfs_init [OF s]])
       (use bc_bfs_step_inv(1) [OF c] in blast)
  moreover have "snd r = []" using while_option_stop [OF r] by simp
  ultimately have "bc_bfs_inv mat s (fst r, [])" by (cases r) simp
  moreover have "traverse mat False s = Some (fst r)" using r by (simp add: traverse_def)
  ultimately show ?thesis by blast
qed

lemma bc_bfs_stack_ok:
  assumes "bc_bfs_inv mat s (t, [])"
  shows "stack_ok (unat (mat_n mat)) t"
  using assms unfolding bc_bfs_inv_def stack_ok_def bfs_inv_def bounded_def
  by auto

subsection \<open>Weighted traversal\<close>

lemma proj_dij_relax: "proj (bc_dij_relax mat v w st) = dij_relax mat v w (proj st)"
  by (cases st) (simp add: proj_def bc_dij_relax_def dij_relax_def Let_def)

lemma proj_dij_fold: "proj (fold (bc_dij_relax mat v) ws st) = fold (dij_relax mat v) ws (proj st)"
  by (induction ws arbitrary: st) (simp_all add: proj_dij_relax)

lemma proj_dij_step: "proj (bc_dij_step mat st) = dij_step mat (proj st)"
proof -
  obtain t pq where st: "st = (t, pq)" by (cases st)
  obtain d v where top: "pq_top pq = (d, v)" by (cases "pq_top pq")
  show ?thesis
  proof (cases "d > t_dist t ! v")
    case True
    then show ?thesis by (simp add: st top bc_dij_step_def dij_step_def proj_def)
  next
    case False
    let ?t1 = "t\<lparr>t_stack := v # t_stack t\<rparr>"
    have "proj (bc_dij_step mat st) =
          proj (fold (bc_dij_relax mat v) [0..<unat (mat_n mat)] (?t1, pq_pop pq))"
      using False by (simp add: bc_dij_step_def st top)
    also have "\<dots> = fold (dij_relax mat v) [0..<unat (mat_n mat)] (proj (?t1, pq_pop pq))"
      by (rule proj_dij_fold)
    also have "proj (?t1, pq_pop pq) = (t_dist t, pq_pop pq)" by (simp add: proj_def)
    finally show ?thesis using False by (simp add: dij_step_def st top proj_def)
  qed
qed

lemma fold_min_le:
  "fst (fold (\<lambda>x m. if pair_less x m then x else m) xs m0) \<le> fst m0 \<and>
   (\<forall>e\<in>set xs. fst (fold (\<lambda>x m. if pair_less x m then x else m) xs m0) \<le> fst e)"
proof (induction xs arbitrary: m0)
  case Nil
  then show ?case by simp
next
  case (Cons x xs)
  let ?m1 = "if pair_less x m0 then x else m0"
  have m1: "fst ?m1 \<le> fst m0" "fst ?m1 \<le> fst x" by (auto simp: pair_less_def)
  from Cons.IH [of ?m1]
  have "fst (fold (\<lambda>x m. if pair_less x m then x else m) xs ?m1) \<le> fst ?m1"
    and "\<forall>e\<in>set xs. fst (fold (\<lambda>x m. if pair_less x m then x else m) xs ?m1) \<le> fst e"
    by simp_all
  with m1 show ?case by force
qed

lemma pq_top_min: "e \<in> set pq \<Longrightarrow> fst (pq_top pq) \<le> fst e"
  using fold_min_le [of "tl pq" "hd pq"] by (cases pq) (auto simp: pq_top_def)

lemma bc_dij_relax_shape:
  "t_stack (fst (bc_dij_relax mat v w st)) = t_stack (fst st)"
  "length (t_preds (fst (bc_dij_relax mat v w st))) = length (t_preds (fst st))"
  "(t_preds (fst (bc_dij_relax mat v w st)) = t_preds (fst st) \<and>
    snd (bc_dij_relax mat v w st) = snd st \<and>
    t_dist (fst (bc_dij_relax mat v w st)) = t_dist (fst st)) \<or>
   (v \<noteq> w \<and> mat_at mat v w \<noteq> NO_EDGE \<and>
    int32 (t_dist (fst st) ! v + uint (mat_at mat v w)) < t_dist (fst st) ! w \<and>
    t_dist (fst (bc_dij_relax mat v w st)) =
      (t_dist (fst st))[w := int32 (t_dist (fst st) ! v + uint (mat_at mat v w))] \<and>
    snd (bc_dij_relax mat v w st) =
      snd st @ [(int32 (t_dist (fst st) ! v + uint (mat_at mat v w)), w)] \<and>
    t_preds (fst (bc_dij_relax mat v w st)) = (t_preds (fst st))[w := [v]]) \<or>
   (v \<noteq> w \<and> mat_at mat v w \<noteq> NO_EDGE \<and>
    int32 (t_dist (fst st) ! v + uint (mat_at mat v w)) = t_dist (fst st) ! w \<and>
    t_dist (fst (bc_dij_relax mat v w st)) = t_dist (fst st) \<and>
    snd (bc_dij_relax mat v w st) = snd st \<and>
    t_preds (fst (bc_dij_relax mat v w st)) = (t_preds (fst st))[w := t_preds (fst st) ! w @ [v]])"
  by (cases st; simp add: bc_dij_relax_def Let_def)+

lemma dij_inv_mid:
  assumes inv: "dij_inv mat W s (dst, pq)" and ne: "pq \<noteq> []"
    and top: "pq_top pq = (d, u)" and valid: "\<not> d > dst ! u"
  shows "dij_mid mat W s u (dst, pq_pop pq)" and "dst ! u = d"
proof -
  let ?N = "unat (mat_n mat)"
  have mem: "(d, u) \<in> set pq" using pq_top_mem [OF ne] top by simp
  from inv have b: "bounded ?N W dst" and snd: "sound (weight mat) mat s dst"
    and s: "s < ?N" and ds: "dst ! s = 0"
    and P1: "\<forall>e\<in>set pq. snd e < ?N \<and> dst ! snd e \<le> fst e \<and> fst e < INF32"
    and P5: "\<forall>x < ?N. dst ! x \<noteq> INF32 \<longrightarrow>
               (dst ! x, x) \<in> set pq \<or> settled (weight mat) mat dst x"
    by (simp_all add: dij_inv_def)
  from P1 mem have u: "u < ?N" and dle: "dst ! u \<le> d" and dI: "d < INF32" by auto
  then have du: "dst ! u \<noteq> INF32" by simp
  show "dst ! u = d" using dle valid by simp
  have P1': "\<forall>e\<in>set (pq_pop pq). snd e < ?N \<and> dst ! snd e \<le> fst e \<and> fst e < INF32"
    using P1 pq_pop_subset [of pq] by blast
  have "\<forall>x < ?N. x \<noteq> u \<longrightarrow> dst ! x \<noteq> INF32 \<longrightarrow>
               (dst ! x, x) \<in> set (pq_pop pq) \<or> settled (weight mat) mat dst x"
  proof (intro allI impI)
    fix x assume x: "x < ?N" "x \<noteq> u" "dst ! x \<noteq> INF32"
    with P5 consider "(dst ! x, x) \<in> set pq" | "settled (weight mat) mat dst x" by blast
    then show "(dst ! x, x) \<in> set (pq_pop pq) \<or> settled (weight mat) mat dst x"
    proof cases
      case 1
      have "(dst ! x, x) \<noteq> pq_top pq" using x(2) top by auto
      with 1 show ?thesis using pq_pop_keeps by blast
    next
      case 2
      then show ?thesis by simp
    qed
  qed
  then show "dij_mid mat W s u (dst, pq_pop pq)"
    unfolding dij_mid_def using b snd s ds u du P1' by simp
qed

lemma bc_dij_relax_mid:
  assumes c: "covered mat" and wl: "weights_le mat W"
    and cap: "int (unat (mat_n mat)) * W \<le> INF32"
    and mid: "bc_dij_mid mat W s v st" and w: "w < unat (mat_n mat)"
  shows "bc_dij_mid mat W s v (bc_dij_relax mat v w st)"
proof -
  let ?N = "unat (mat_n mat)"
  let ?r = "bc_dij_relax mat v w st"
  obtain t pq where st: "st = (t, pq)" by (cases st)
  obtain t' pq' where r: "bc_dij_relax mat v w (t, pq) = (t', pq')"
    by (cases "bc_dij_relax mat v w (t, pq)")
  from mid st have m: "dij_mid mat W s v (t_dist t, pq)" and lp: "length (t_preds t) = ?N"
    and dpq: "distinct pq" and dstk: "distinct (t_stack t)"
    and ss: "stack_sorted (t_dist t) (t_stack t)" and vin: "v \<in> set (t_stack t)"
    and sb: "\<forall>x\<in>set (t_stack t). x < ?N \<and> t_dist t ! x \<noteq> INF32 \<and>
            t_dist t ! x \<le> t_dist t ! v \<and>
            (\<forall>e\<in>set pq. t_dist t ! x \<le> fst e \<and> (snd e = x \<longrightarrow> t_dist t ! x < fst e))"
    and po: "\<forall>w < ?N. \<forall>u\<in>set (t_preds t ! w).
            u \<in> set (t_stack t) \<and> t_dist t ! w \<noteq> INF32 \<and> t_dist t ! u < t_dist t ! w"
    by (simp_all add: bc_dij_mid_def)
  have pr': "(t_dist t', pq') = dij_relax mat v w (t_dist t, pq)"
    using proj_dij_relax [of mat v w "(t, pq)"] r by (simp add: proj_def)
  note one = dij_relax_mid [OF c wl cap m w, folded pr']
  have m': "dij_mid mat W s v (t_dist t', pq')" using one(1) .
  from m have b: "bounded ?N W (t_dist t)" and v: "v < ?N" and dv: "t_dist t ! v \<noteq> INF32"
    and P1: "\<forall>e\<in>set pq. snd e < ?N \<and> t_dist t ! snd e \<le> fst e \<and> fst e < INF32"
    by (simp_all add: dij_mid_def)
  have len: "length (t_dist t) = ?N" using b by (simp add: bounded_def)
  note shape = bc_dij_relax_shape [of mat v w "(t, pq)", unfolded r, simplified]
  have st': "t_stack t' = t_stack t" using shape(1) .
  have lp': "length (t_preds t') = ?N" using shape(2) lp by simp
  let ?alt = "int32 (t_dist t ! v + uint (mat_at mat v w))"
  have alt: "?alt = t_dist t ! v + weight mat v w" "1 \<le> weight mat v w" "arc mat v w"
    if "v \<noteq> w" "mat_at mat v w \<noteq> NO_EDGE"
  proof -
    show a: "arc mat v w" using that v w by (simp add: arc_def)
    have wt: "1 \<le> weight mat v w" "weight mat v w \<le> W" using arc_weight [OF c a] wl by simp_all
    then show "1 \<le> weight mat v w" by simp
    have "int32 (t_dist t ! v + weight mat v w) = t_dist t ! v + weight mat v w"
      by (rule bounded_sum(4) [OF b v dv _ wt(2) cap]) (use wt(1) in simp)
    then show "?alt = t_dist t ! v + weight mat v w" by (simp add: weight_def)
  qed
  from shape(3) consider
      (same) "t_preds t' = t_preds t" "pq' = pq" "t_dist t' = t_dist t"
    | (improve) "v \<noteq> w" "mat_at mat v w \<noteq> NO_EDGE" "?alt < t_dist t ! w"
        "t_dist t' = (t_dist t)[w := ?alt]" "pq' = pq @ [(?alt, w)]"
        "t_preds t' = (t_preds t)[w := [v]]"
    | (equal) "v \<noteq> w" "mat_at mat v w \<noteq> NO_EDGE" "?alt = t_dist t ! w"
        "t_dist t' = t_dist t" "pq' = pq" "t_preds t' = (t_preds t)[w := t_preds t ! w @ [v]]"
    by blast
  then show ?thesis
  proof cases
    case same
    then show ?thesis
      unfolding st r bc_dij_mid_def using m' lp' dpq dstk ss vin sb po st' by simp
  next
    case improve
    note a = alt [OF improve(1,2)]
    have gt: "t_dist t ! v < ?alt" using a(1,2) by simp
    have wns: "w \<notin> set (t_stack t)"
    proof
      assume "w \<in> set (t_stack t)"
      with sb have "t_dist t ! w \<le> t_dist t ! v" by simp
      with gt improve(3) show False by simp
    qed
    have keep: "t_dist t' ! x = t_dist t ! x" if "x \<in> set (t_stack t)" for x
      using that wns improve(4) by (cases "x = w") simp_all
    have neww: "t_dist t' ! w = ?alt" using improve(4) w len by simp
    have "t_dist t ! w \<le> INF32" using b w by (simp add: bounded_def)
    with improve(3) have altI: "?alt < INF32" by simp
    have dpq': "distinct pq'"
    proof -
      have "(?alt, w) \<notin> set pq"
      proof
        assume "(?alt, w) \<in> set pq"
        with P1 have "t_dist t ! w \<le> ?alt" by fastforce
        with improve(3) show False by simp
      qed
      with dpq improve(5) show ?thesis by simp
    qed
    have ss': "stack_sorted (t_dist t') (t_stack t')"
      unfolding st' using ss by (rule stack_sorted_frozen) (use keep in simp)
    have sb': "\<forall>x\<in>set (t_stack t'). x < ?N \<and> t_dist t' ! x \<noteq> INF32 \<and>
            t_dist t' ! x \<le> t_dist t' ! v \<and>
            (\<forall>e\<in>set pq'. t_dist t' ! x \<le> fst e \<and> (snd e = x \<longrightarrow> t_dist t' ! x < fst e))"
    proof
      fix x assume x: "x \<in> set (t_stack t')"
      then have xs: "x \<in> set (t_stack t)" using st' by simp
      from sb xs have o: "x < ?N" "t_dist t ! x \<noteq> INF32" "t_dist t ! x \<le> t_dist t ! v"
        "\<forall>e\<in>set pq. t_dist t ! x \<le> fst e \<and> (snd e = x \<longrightarrow> t_dist t ! x < fst e)" by simp_all
      have xw: "x \<noteq> w" using xs wns by auto
      have "\<forall>e\<in>set pq'. t_dist t ! x \<le> fst e \<and> (snd e = x \<longrightarrow> t_dist t ! x < fst e)"
        using o(3,4) gt xw improve(5) by auto
      then show "x < ?N \<and> t_dist t' ! x \<noteq> INF32 \<and> t_dist t' ! x \<le> t_dist t' ! v \<and>
            (\<forall>e\<in>set pq'. t_dist t' ! x \<le> fst e \<and> (snd e = x \<longrightarrow> t_dist t' ! x < fst e))"
        using o(1,2,3) keep [OF xs] keep [OF vin] by simp
    qed
    have po': "\<forall>w0 < ?N. \<forall>u\<in>set (t_preds t' ! w0).
            u \<in> set (t_stack t') \<and> t_dist t' ! w0 \<noteq> INF32 \<and> t_dist t' ! u < t_dist t' ! w0"
    proof (intro allI impI ballI)
      fix w0 u assume w0: "w0 < ?N" and u: "u \<in> set (t_preds t' ! w0)"
      show "u \<in> set (t_stack t') \<and> t_dist t' ! w0 \<noteq> INF32 \<and> t_dist t' ! u < t_dist t' ! w0"
      proof (cases "w0 = w")
        case True
        then have "u = v" using u improve(6) lp w by simp
        then show ?thesis using True vin st' neww altI gt keep [OF vin] by simp
      next
        case False
        then have "u \<in> set (t_preds t ! w0)" using u improve(6) by simp
        with po w0 have "u \<in> set (t_stack t)" "t_dist t ! w0 \<noteq> INF32"
          "t_dist t ! u < t_dist t ! w0" by simp_all
        then show ?thesis using False keep [of u] improve(4) st' by simp
      qed
    qed
    show ?thesis
      unfolding st r bc_dij_mid_def using m' lp' dpq' dstk ss' vin sb' po' st' by simp
  next
    case equal
    note a = alt [OF equal(1,2)]
    have gt: "t_dist t ! v < t_dist t ! w" using a(1,2) equal(3) by simp
    have wfin: "t_dist t ! w \<noteq> INF32"
    proof
      assume top: "t_dist t ! w = INF32"
      have wt: "1 \<le> weight mat v w" "weight mat v w \<le> W"
        using arc_weight [OF c a(3)] wl by simp_all
      from bounded_sum_fresh [OF b v dv wt cap w top] a(1) equal(3) top show False by simp
    qed
    have po': "\<forall>w0 < ?N. \<forall>u\<in>set (t_preds t' ! w0).
            u \<in> set (t_stack t') \<and> t_dist t' ! w0 \<noteq> INF32 \<and> t_dist t' ! u < t_dist t' ! w0"
    proof (intro allI impI ballI)
      fix w0 u assume w0: "w0 < ?N" and u: "u \<in> set (t_preds t' ! w0)"
      show "u \<in> set (t_stack t') \<and> t_dist t' ! w0 \<noteq> INF32 \<and> t_dist t' ! u < t_dist t' ! w0"
      proof (cases "w0 = w \<and> u = v")
        case True
        then show ?thesis using vin st' wfin gt equal(4) by simp
      next
        case False
        then have "u \<in> set (t_preds t ! w0)"
          using u equal(6) lp w by (cases "w0 = w") auto
        with po w0 show ?thesis using st' equal(4) by simp
      qed
    qed
    show ?thesis
      unfolding st r bc_dij_mid_def using m' lp' dpq dstk ss vin sb po' st' equal(4,5) by simp
  qed
qed

lemma bc_dij_fold:
  assumes c: "covered mat" and wl: "weights_le mat W"
    and cap: "int (unat (mat_n mat)) * W \<le> INF32"
    and mid: "bc_dij_mid mat W s v st" and ws: "set ws \<subseteq> {..<unat (mat_n mat)}"
  shows "bc_dij_mid mat W s v (fold (bc_dij_relax mat v) ws st)"
  using mid ws
proof (induction ws arbitrary: st)
  case Nil
  then show ?case by simp
next
  case (Cons w ws)
  then have "bc_dij_mid mat W s v (bc_dij_relax mat v w st)"
    using bc_dij_relax_mid [OF c wl cap] by simp
  with Cons show ?case by simp
qed

lemma bc_dij_step_inv:
  assumes c: "covered mat" and wl: "weights_le mat W"
    and cap: "int (unat (mat_n mat)) * W \<le> INF32"
    and inv: "bc_dij_inv mat W s st" and ne: "snd st \<noteq> []"
  shows "bc_dij_inv mat W s (bc_dij_step mat st)"
    and "potential (proj (bc_dij_step mat st)) < potential (proj st)"
proof -
  let ?N = "unat (mat_n mat)"
  obtain t pq where st: "st = (t, pq)" by (cases st)
  obtain d u where top: "pq_top pq = (d, u)" by (cases "pq_top pq")
  have pqne: "pq \<noteq> []" using ne st by simp
  have mem: "(d, u) \<in> set pq" using pq_top_mem [OF pqne] top by simp
  from inv st have i: "dij_inv mat W s (t_dist t, pq)" and lp: "length (t_preds t) = ?N"
    and dpq: "distinct pq" and dstk: "distinct (t_stack t)"
    and ss: "stack_sorted (t_dist t) (t_stack t)"
    and sb: "\<forall>x\<in>set (t_stack t). x < ?N \<and> t_dist t ! x \<noteq> INF32 \<and>
            (\<forall>e\<in>set pq. t_dist t ! x \<le> fst e \<and> (snd e = x \<longrightarrow> t_dist t ! x < fst e))"
    and po: "\<forall>w < ?N. \<forall>u\<in>set (t_preds t ! w).
            u \<in> set (t_stack t) \<and> t_dist t ! w \<noteq> INF32 \<and> t_dist t ! u < t_dist t ! w"
    by (simp_all add: bc_dij_inv_def)
  have pst: "proj st = (t_dist t, pq)" by (simp add: proj_def st)
  have ne': "snd (proj st) \<noteq> []" using ne by (simp add: proj_def)
  have i': "dij_inv mat W s (proj st)" using i pst by simp
  note base = dij_step_inv [OF c wl cap i' ne']
  show "potential (proj (bc_dij_step mat st)) < potential (proj st)"
    using base(2) by (simp add: proj_dij_step)
  have after: "dij_inv mat W s (proj (bc_dij_step mat st))"
    using base(1) by (simp only: proj_dij_step)
  have sub: "set (pq_pop pq) \<subseteq> set pq" by (rule pq_pop_subset)
  have dpop: "distinct (pq_pop pq)" using dpq by (simp add: pq_pop_def)
  show "bc_dij_inv mat W s (bc_dij_step mat st)"
  proof (cases "d > t_dist t ! u")
    case True
    have step: "bc_dij_step mat st = (t, pq_pop pq)"
      using True by (simp add: bc_dij_step_def st top)
    have "dij_inv mat W s (t_dist t, pq_pop pq)" using after by (simp add: step proj_def)
    moreover have "\<forall>x\<in>set (t_stack t). x < ?N \<and> t_dist t ! x \<noteq> INF32 \<and>
            (\<forall>e\<in>set (pq_pop pq). t_dist t ! x \<le> fst e \<and> (snd e = x \<longrightarrow> t_dist t ! x < fst e))"
      using sb sub by blast
    ultimately show ?thesis
      unfolding step bc_dij_inv_def using lp dpop dstk ss po by simp
  next
    case False
    let ?t1 = "t\<lparr>t_stack := u # t_stack t\<rparr>"
    let ?fin = "fold (bc_dij_relax mat u) [0..<?N] (?t1, pq_pop pq)"
    have step: "bc_dij_step mat st = ?fin" using False by (simp add: bc_dij_step_def st top)
    note dm = dij_inv_mid [OF i pqne top False]
    from dm(1) have u: "u < ?N" and du: "t_dist t ! u \<noteq> INF32" by (simp_all add: dij_mid_def)
    have uns: "u \<notin> set (t_stack t)"
    proof
      assume "u \<in> set (t_stack t)"
      with sb mem have "t_dist t ! u < d" by fastforce
      with dm(2) show False by simp
    qed
    have below: "\<forall>x\<in>set (t_stack t). t_dist t ! x \<le> t_dist t ! u"
      using sb mem dm(2) by fastforce
    have utop: "\<forall>e\<in>set (pq_pop pq). t_dist t ! u \<le> fst e \<and> (snd e = u \<longrightarrow> t_dist t ! u < fst e)"
    proof
      fix e assume e: "e \<in> set (pq_pop pq)"
      then have ein: "e \<in> set pq" using sub by blast
      have le: "t_dist t ! u \<le> fst e" using pq_top_min [OF ein] top dm(2) by simp
      have "e \<noteq> (d, u)" using e dpq top by (auto simp: pq_pop_def)
      then have "snd e = u \<longrightarrow> fst e \<noteq> d" by (cases e) auto
      with le dm(2) show "t_dist t ! u \<le> fst e \<and> (snd e = u \<longrightarrow> t_dist t ! u < fst e)"
        by auto
    qed
    have sb1: "\<forall>x\<in>set (t_stack ?t1). x < ?N \<and> t_dist ?t1 ! x \<noteq> INF32 \<and>
            t_dist ?t1 ! x \<le> t_dist ?t1 ! u \<and>
            (\<forall>e\<in>set (pq_pop pq). t_dist ?t1 ! x \<le> fst e \<and>
                                  (snd e = x \<longrightarrow> t_dist ?t1 ! x < fst e))"
    proof
      fix x assume "x \<in> set (t_stack ?t1)"
      then consider "x = u" | "x \<in> set (t_stack t)" by auto
      then show "x < ?N \<and> t_dist ?t1 ! x \<noteq> INF32 \<and> t_dist ?t1 ! x \<le> t_dist ?t1 ! u \<and>
            (\<forall>e\<in>set (pq_pop pq). t_dist ?t1 ! x \<le> fst e \<and>
                                  (snd e = x \<longrightarrow> t_dist ?t1 ! x < fst e))"
      proof cases
        case 1
        then show ?thesis using u du utop by simp
      next
        case 2
        with sb sub below show ?thesis by auto
      qed
    qed
    have po1: "\<forall>w < ?N. \<forall>x\<in>set (t_preds ?t1 ! w).
            x \<in> set (t_stack ?t1) \<and> t_dist ?t1 ! w \<noteq> INF32 \<and> t_dist ?t1 ! x < t_dist ?t1 ! w"
      using po by simp
    have ss1: "stack_sorted (t_dist ?t1) (t_stack ?t1)"
      using ss below by (simp add: stack_sorted_def)
    have mid0: "bc_dij_mid mat W s u (?t1, pq_pop pq)"
      unfolding bc_dij_mid_def using dm(1) lp dpop dstk uns ss1 sb1 po1 by simp
    have "set [0..<?N] \<subseteq> {..<?N}" by auto
    from bc_dij_fold [OF c wl cap mid0 this] have mid: "bc_dij_mid mat W s u ?fin" .
    obtain t' pq' where fin: "?fin = (t', pq')" by (cases ?fin)
    have "dij_inv mat W s (t_dist t', pq')" using after by (simp add: step fin proj_def)
    then show ?thesis
      using mid unfolding step fin bc_dij_inv_def bc_dij_mid_def by auto
  qed
qed

lemma bc_dij_init:
  assumes s: "s < unat (mat_n mat)"
  shows "bc_dij_inv mat W s (trav_init (unat (mat_n mat)) s, [(0, s)])"
  unfolding bc_dij_inv_def using dij_init [OF s, of W]
  by (simp add: trav_init_def stack_sorted_def)

lemma bc_dij_result:
  assumes c: "covered mat" and wl: "weights_le mat W"
    and cap: "int (unat (mat_n mat)) * W \<le> INF32" and s: "s < unat (mat_n mat)"
  shows "\<exists>t. traverse mat True s = Some t \<and> bc_dij_inv mat W s (t, [])"
proof -
  let ?init = "(trav_init (unat (mat_n mat)) s, [(0 :: int, s)])"
  have "\<exists>r. while_option (\<lambda>st. snd st \<noteq> []) (bc_dij_step mat) ?init = Some r"
  proof (rule measure_while_option_Some
      [where P = "bc_dij_inv mat W s" and f = "\<lambda>st. potential (proj st)"])
    fix st :: "trav \<times> (int \<times> nat) list"
    assume "bc_dij_inv mat W s st" "snd st \<noteq> []"
    then show "bc_dij_inv mat W s (bc_dij_step mat st) \<and>
               potential (proj (bc_dij_step mat st)) < potential (proj st)"
      using bc_dij_step_inv [OF c wl cap] by blast
  next
    show "bc_dij_inv mat W s ?init" by (rule bc_dij_init [OF s])
  qed
  then obtain r where r: "while_option (\<lambda>st. snd st \<noteq> []) (bc_dij_step mat) ?init = Some r" ..
  have "bc_dij_inv mat W s r"
    by (rule while_option_rule [where P = "bc_dij_inv mat W s", OF _ r bc_dij_init [OF s]])
       (use bc_dij_step_inv(1) [OF c wl cap] in blast)
  moreover have "snd r = []" using while_option_stop [OF r] by simp
  ultimately have "bc_dij_inv mat W s (fst r, [])" by (cases r) simp
  moreover have "traverse mat True s = Some (fst r)" using r by (simp add: traverse_def)
  ultimately show ?thesis by blast
qed

lemma bc_dij_stack_ok:
  assumes "bc_dij_inv mat W s (t, [])"
  shows "stack_ok (unat (mat_n mat)) t"
proof -
  let ?N = "unat (mat_n mat)"
  from assms have i: "dij_inv mat W s (t_dist t, [])" and lp: "length (t_preds t) = ?N"
    and dstk: "distinct (t_stack t)" and ss: "stack_sorted (t_dist t) (t_stack t)"
    and sb: "\<forall>x\<in>set (t_stack t). x < ?N"
    and po: "\<forall>w < ?N. \<forall>u\<in>set (t_preds t ! w).
            u \<in> set (t_stack t) \<and> t_dist t ! w \<noteq> INF32 \<and> t_dist t ! u < t_dist t ! w"
    by (simp_all add: bc_dij_inv_def)
  from i have len: "length (t_dist t) = ?N" by (simp add: dij_inv_def bounded_def)
  have "\<forall>w < ?N. \<forall>v\<in>set (t_preds t ! w). v < ?N \<and> t_dist t ! v < t_dist t ! w"
    using po sb by blast
  then show ?thesis
    unfolding stack_ok_def using len lp dstk ss sb by auto
qed

subsection \<open>The function\<close>

lemma traverse_ok:
  assumes c: "covered mat"
    and w: "weighed \<longrightarrow> weights_le mat W \<and> int (unat (mat_n mat)) * W \<le> INF32"
    and s: "s < unat (mat_n mat)"
  shows "\<exists>t. traverse mat weighed s = Some t \<and> stack_ok (unat (mat_n mat)) t"
proof (cases weighed)
  case False
  from bc_bfs_result [OF c s] obtain t where
    "traverse mat False s = Some t" "bc_bfs_inv mat s (t, [])" by blast
  then show ?thesis using False bc_bfs_stack_ok by auto
next
  case True
  with w have wl: "weights_le mat W" and cap: "int (unat (mat_n mat)) * W \<le> INF32" by simp_all
  from bc_dij_result [OF c wl cap s] obtain t where
    "traverse mat True s = Some t" "bc_dij_inv mat W s (t, [])" by blast
  then show ?thesis using True bc_dij_stack_ok by auto
qed

lemma source_pass_closed:
  assumes c: "covered mat"
    and w: "weighed \<longrightarrow> weights_le mat W \<and> int (unat (mat_n mat)) * W \<le> INF32"
    and s: "s < unat (mat_n mat)" and len: "length cen = unat (mat_n mat)"
  shows "\<exists>t cen'. traverse mat weighed s = Some t \<and>
           source_pass fp mat weighed s cen = Some cen' \<and>
           distinct (t_stack t) \<and> stack_sorted (t_dist t) (t_stack t) \<and>
           length cen' = unat (mat_n mat) \<and>
           (\<forall>x < unat (mat_n mat). cen' ! x =
              (if x \<in> set (t_stack t) \<and> x \<noteq> s
               then fp_add fp (cen ! x) (fst (accumulate fp (unat (mat_n mat)) t s cen) ! x)
               else cen ! x))"
proof -
  let ?N = "unat (mat_n mat)"
  from traverse_ok [OF c w s] obtain t where
    t: "traverse mat weighed s = Some t" and ok: "stack_ok ?N t" by blast
  let ?cen = "snd (accumulate fp ?N t s cen)"
  have sp: "source_pass fp mat weighed s cen = Some ?cen" by (simp add: source_pass_def t)
  note cl = accumulate_closed [OF ok len, of fp s]
  from ok have "distinct (t_stack t)" "stack_sorted (t_dist t) (t_stack t)"
    by (simp_all add: stack_ok_def)
  with t sp cl show ?thesis by blast
qed

lemma sources_fold:
  assumes c: "covered mat"
    and w: "weighed \<longrightarrow> weights_le mat W \<and> int (unat (mat_n mat)) * W \<le> INF32"
  shows "set ss \<subseteq> {..<unat (mat_n mat)} \<Longrightarrow> length cen = unat (mat_n mat) \<Longrightarrow>
         \<exists>acc. fold (\<lambda>s acc. Option.bind acc (source_pass fp mat weighed s)) ss (Some cen) = Some acc \<and>
               length acc = unat (mat_n mat)"
proof (induction ss arbitrary: cen)
  case Nil
  then show ?case by simp
next
  case (Cons s ss)
  then have s: "s < unat (mat_n mat)" and ss: "set ss \<subseteq> {..<unat (mat_n mat)}" by simp_all
  from source_pass_closed [OF c w s Cons.prems(2), of fp] obtain cen' where
    "source_pass fp mat weighed s cen = Some cen'" "length cen' = unat (mat_n mat)" by blast
  with Cons.IH [OF ss, of cen'] show ?case by simp
qed

text \<open>
  On a matrix whose buffer holds \<open>n \<times> n\<close> cells (and, in the weighted mode, whose weights
  keep every distance sum inside \<^verbatim>\<open>int32_t\<close>) the loop over the sources ends with a vector
  of \<open>n\<close> values, and the result is that vector with every value divided by \<open>2.0\<close>: nothing
  about the matrix, its symmetry in particular, decides whether the division happens. On
  the directed chain \<open>0 \<rightarrow> 1 \<rightarrow> 2\<close> the result is \<open>[0, 1/2, 0]\<close>.
\<close>

lemma betweenness_halved:
  assumes c: "covered mat"
    and w: "weighed \<longrightarrow> weights_le mat W \<and> int (unat (mat_n mat)) * W \<le> INF32"
  shows "\<exists>acc. all_sources fp mat weighed = Some acc \<and> length acc = unat (mat_n mat) \<and>
           betweenness_centrality fp mat weighed =
             Some (map (\<lambda>val. fp_div fp val (fp_two fp)) acc)"
proof -
  have "set [0..<unat (mat_n mat)] \<subseteq> {..<unat (mat_n mat)}" by auto
  from sources_fold [OF c w this, of "replicate (unat (mat_n mat)) (fp_zero fp)" fp]
  obtain acc where "all_sources fp mat weighed = Some acc" "length acc = unat (mat_n mat)"
    by (auto simp: all_sources_def)
  then show ?thesis by (simp add: betweenness_centrality_def)
qed

lemma mat_chain_eq: "mat_chain = \<lparr>mat_n = 3, mat_data = [0, 1, 0, 0, 0, 1, 0, 0, 0]\<rparr>"
  by (simp add: mat_chain_def set_edge_def construct_def check_bounds_def cell_def word_le_nat_alt
        rep9 nth_Cons' list_update_code)

lemmas bc_eval = all_sources_def source_pass_def traverse_def
  accumulate_def pop_node_def trav_init_def bc_bfs_step_def bc_bfs_relax_def bc_dij_step_def
  bc_dij_relax_def pq_top_def pq_pop_def pair_less_def real_ops_def
  rep_dist while_option_unfold mat_at_def cell_def NO_EDGE_def INF32_def int32_def upt_rec
  nth_Cons' list_update_code Let_def

lemma chain_sources: "all_sources real_ops mat_chain False = Some [0, 1, 0]"
  by (simp add: bc_eval mat_chain_eq)

lemma chain_centrality: "betweenness_centrality real_ops mat_chain False = Some [0, 1 / 2, 0]"
proof -
  have "fp_div real_ops = (/)" "fp_two real_ops = 2" by (simp_all add: real_ops_def)
  then show ?thesis by (simp add: betweenness_centrality_def chain_sources)
qed

subsection \<open>A source with \<open>2^32\<close> shortest paths to one node\<close>

lemma set_arcs:
  assumes es: "\<forall>e\<in>set es. fst e < unat (mat_n m) \<and> snd e < unat (mat_n m) \<and> fst e \<noteq> snd e"
    and c: "covered m"
  shows "mat_n (fold (\<lambda>(u, v) m. snd (set_edge m (of_nat u) (of_nat v) w)) es m) = mat_n m \<and>
         covered (fold (\<lambda>(u, v) m. snd (set_edge m (of_nat u) (of_nat v) w)) es m) \<and>
         (\<forall>a < unat (mat_n m). \<forall>b < unat (mat_n m).
            mat_at (fold (\<lambda>(u, v) m. snd (set_edge m (of_nat u) (of_nat v) w)) es m) a b =
              (if (a, b) \<in> set es then w else mat_at m a b))"
  using es c
proof (induction es arbitrary: m)
  case Nil
  then show ?case by simp
next
  case (Cons e es)
  let ?N = "unat (mat_n m)"
  obtain u v where e: "e = (u, v)" by (cases e)
  from Cons.prems e have u: "u < ?N" and v: "v < ?N" and uv: "u \<noteq> v" by simp_all
  let ?m1 = "snd (set_edge m (of_nat u) (of_nat v) w)"
  have c1: "covered ?m1" using Cons.prems(2) by (rule covered_set_edge)
  have es1: "\<forall>e\<in>set es. fst e < unat (mat_n ?m1) \<and> snd e < unat (mat_n ?m1) \<and> fst e \<noteq> snd e"
    using Cons.prems(1) by simp
  note ih = Cons.IH [OF es1 c1]
  have ne: "(of_nat u :: u32) \<noteq> of_nat v"
    using of_nat_index(1) [OF u] of_nat_index(1) [OF v] uv by metis
  have m1: "?m1 = m\<lparr>mat_data := (mat_data m)[u * ?N + v := w]\<rparr>"
    using of_nat_index(2) [OF u] of_nat_index(2) [OF v] ne
    by (simp add: set_edge_def check_bounds_iff cell_nat [OF Cons.prems(2) u v])
  have one: "mat_at ?m1 a b = (if (a, b) = (u, v) then w else mat_at m a b)"
    if a: "a < ?N" and b: "b < ?N" for a b
  proof -
    have a1: "a < unat (mat_n ?m1)" and b1: "b < unat (mat_n ?m1)" using a b by simp_all
    have "mat_at ?m1 a b = mat_data ?m1 ! (a * ?N + b)"
      using mat_at_nat(1) [OF c1 a1 b1] by simp
    also have "\<dots> = (mat_data m)[u * ?N + v := w] ! (a * ?N + b)" by (simp add: m1)
    also have "\<dots> = (if (a, b) = (u, v) then w else mat_data m ! (a * ?N + b))"
    proof (cases "(a, b) = (u, v)")
      case True
      have "u * ?N + v < length (mat_data m)"
        using index_bound [OF u v] Cons.prems(2) by (simp add: covered_def)
      with True show ?thesis by simp
    next
      case False
      have "u * ?N + v \<noteq> a * ?N + b"
        using index_inj [OF v b, of u a] False by auto
      with False show ?thesis by auto
    qed
    also have "mat_data m ! (a * ?N + b) = mat_at m a b"
      using mat_at_nat(1) [OF Cons.prems(2) a b] by simp
    finally show ?thesis .
  qed
  show ?case using ih one by (auto simp: e)
qed

lemma layers_n: "mat_n mat_layers = 66" and layers_covered: "covered mat_layers"
  and layers_at: "a < 66 \<Longrightarrow> b < 66 \<Longrightarrow>
     mat_at mat_layers a b = (if (b + 1) div 2 = (a + 1) div 2 + 1 then 1 else 0)"
proof -
  have c: "covered (construct 66)" by (rule covered_construct) simp
  have n: "unat (mat_n (construct 66)) = 66" by (simp add: construct_def)
  have es: "\<forall>e\<in>set layer_arcs. fst e < unat (mat_n (construct 66)) \<and>
              snd e < unat (mat_n (construct 66)) \<and> fst e \<noteq> snd e"
    unfolding n by (auto simp: layer_arcs_def)
  note f = set_arcs [OF es c, of 1, folded mat_layers_def, unfolded n]
  show "mat_n mat_layers = 66" using f by (simp add: construct_def)
  show "covered mat_layers" using f by simp
  have z: "mat_at (construct 66) a b = 0" if "a < 66" "b < 66" for a b
  proof -
    have "a * 66 + b < 66 * 66" using that by (intro index_bound)
    then show ?thesis using mat_at_nat(1) [OF c, of a b] that n by (simp add: construct_def)
  qed
  show "mat_at mat_layers a b = (if (b + 1) div 2 = (a + 1) div 2 + 1 then 1 else 0)"
    if "a < 66" "b < 66"
    using f that z by (auto simp: layer_arcs_def)
qed

text \<open>The number of walks: \<open>2^(k - 1)\<close> of \<open>k\<close> arcs to each node of layer \<open>k\<close>.\<close>

lemma layer_card:
  "card {v. v < 66 \<and> (v + 1) div 2 = (0::nat)} = 1"
  "1 \<le> k \<Longrightarrow> k \<le> 32 \<Longrightarrow> card {v. v < 66 \<and> (v + 1) div 2 = (k::nat)} = 2"
proof -
  have "{v. v < 66 \<and> (v + 1) div 2 = (0::nat)} = {0}" by auto
  then show "card {v. v < 66 \<and> (v + 1) div 2 = (0::nat)} = 1" by simp
  assume k: "1 \<le> k" "k \<le> 32"
  have "{v. v < 66 \<and> (v + 1) div 2 = k} = {2 * k - 1, 2 * k}"
    using k by auto
  moreover have "2 * k - 1 \<noteq> 2 * k" using k by simp
  ultimately show "card {v. v < 66 \<and> (v + 1) div 2 = k} = 2" by simp
qed

lemma layers_walks:
  "k \<le> 33 \<Longrightarrow> w < 66 \<Longrightarrow>
     walks mat_layers 0 k w = (if (w + 1) div 2 = k then 2 ^ (k - 1) else 0)"
proof (induction k arbitrary: w)
  case 0
  then show ?case by auto
next
  case (Suc k)
  have k: "k \<le> 32" using Suc.prems by simp
  have summand: "(if arc mat_layers v w then walks mat_layers 0 k v else 0) =
              (if (w + 1) div 2 = Suc k \<and> (v + 1) div 2 = k then 2 ^ (k - 1) else 0)"
    if v: "v < 66" for v
  proof -
    have "walks mat_layers 0 k v = (if (v + 1) div 2 = k then 2 ^ (k - 1) else 0)"
      using Suc.IH [OF _ v] k by simp
    moreover have "arc mat_layers v w \<longleftrightarrow> (w + 1) div 2 = (v + 1) div 2 + 1"
      using v Suc.prems(2) by (auto simp: arc_def layers_n layers_at NO_EDGE_def)
    ultimately show ?thesis by auto
  qed
  have "walks mat_layers 0 (Suc k) w =
          (\<Sum>v\<leftarrow>[0..<66]. if arc mat_layers v w then walks mat_layers 0 k v else 0)"
    by (simp add: layers_n)
  also have "\<dots> = (\<Sum>v\<in>{0..<66}. if arc mat_layers v w then walks mat_layers 0 k v else 0)"
    by (simp add: interv_sum_list_conv_sum_set_nat)
  also have "\<dots> = (\<Sum>v\<in>{0..<66}.
                      if (w + 1) div 2 = Suc k \<and> (v + 1) div 2 = k then 2 ^ (k - 1) else 0)"
    by (rule sum.cong) (simp_all add: summand)
  also have "\<dots> = (if (w + 1) div 2 = Suc k
                     then 2 ^ (k - 1) * card {v. v < 66 \<and> (v + 1) div 2 = k} else 0)"
  proof (cases "(w + 1) div 2 = Suc k")
    case True
    have set_eq: "{v \<in> {0..<66}. (v + 1) div 2 = k} = {v. v < 66 \<and> (v + 1) div 2 = k}" by auto
    have "(\<Sum>v\<in>{0..<66}. if (v + 1) div 2 = k then 2 ^ (k - 1) else (0::nat)) =
            (\<Sum>v\<in>{v \<in> {0..<66}. (v + 1) div 2 = k}. 2 ^ (k - 1))"
      by (rule sum.inter_filter [symmetric]) simp
    also have "\<dots> = 2 ^ (k - 1) * card {v. v < 66 \<and> (v + 1) div 2 = k}"
      unfolding set_eq by simp
    finally have e: "(\<Sum>v\<in>{0..<66}. if (v + 1) div 2 = k then 2 ^ (k - 1) else (0::nat)) =
            2 ^ (k - 1) * card {v. v < 66 \<and> (v + 1) div 2 = k}" .
    show ?thesis by (simp only: True simp_thms if_True e)
  next
    case False
    then show ?thesis by simp
  qed
  also have "\<dots> = (if (w + 1) div 2 = Suc k then 2 ^ (Suc k - 1) else 0)"
  proof (cases "k = 0")
    case True
    then show ?thesis using layer_card(1) by simp
  next
    case False
    then have "2 ^ (k - 1) * 2 = (2::nat) ^ k" by (cases k) simp_all
    with False k show ?thesis using layer_card(2) [of k] by simp
  qed
  finally show ?case .
qed

text \<open>
  The traversal from source \<open>0\<close>, one turn of the \<^verbatim>\<open>while\<close> after the other. The inner
  \<^verbatim>\<open>for\<close> changes nothing at a node that is not a successor.
\<close>

lemma rep66:
  "replicate 66 x =
     [x, x, x, x, x, x, x, x, x, x, x, x, x, x, x, x, x, x, x, x, x, x, x, x, x, x, x, x, x, x,
      x, x, x, x, x, x, x, x, x, x, x, x, x, x, x, x, x, x, x, x, x, x, x, x, x, x, x, x, x, x,
      x, x, x, x, x, x]"
  by (simp add: numeral_eq_Suc)

lemma upt66:
  "[0..<66] =
     [0, 1, 2, 3, 4, 5, 6, 7, 8, 9, 10, 11, 12, 13, 14, 15, 16, 17, 18, 19, 20, 21, 22, 23, 24,
      25, 26, 27, 28, 29, 30, 31, 32, 33, 34, 35, 36, 37, 38, 39, 40, 41, 42, 43, 44, 45, 46,
      47, 48, 49, 50, 51, 52, 53, 54, 55, 56, 57, 58, 59, 60, 61, 62, 63, 64, 65]"
  by (simp add: upt_rec)

lemma while_turn: "b s \<Longrightarrow> while_option b c (c s) = r \<Longrightarrow> while_option b c s = r"
  by (subst while_option_unfold) simp

lemma while_exit: "\<not> b s \<Longrightarrow> s = s' \<Longrightarrow> while_option b c s = Some s'"
  by (subst while_option_unfold) simp

lemma nth_chunk: "8 \<le> n \<Longrightarrow> (a # b # c # d # e # f # g # h # xs) ! n = xs ! (n - 8)"
  using nth_append [of "[a, b, c, d, e, f, g, h]" xs n] by (simp add: eval_nat_numeral)

lemma nth_near: "n < 8 \<Longrightarrow> (x # xs) ! n = (if n = 0 then x else xs ! (n - 1))"
  by (rule nth_Cons')

lemma upd_chunk:
  "8 \<le> n \<Longrightarrow> (a # b # c # d # e # f # g # h # xs)[n := y] =
     a # b # c # d # e # f # g # h # xs[n - 8 := y]"
  using list_update_append [of "[a, b, c, d, e, f, g, h]" xs n y] by (simp add: eval_nat_numeral)

lemma upd_near: "n < 8 \<Longrightarrow> (x # xs)[n := y] = (if n = 0 then y # xs else x # xs[n - 1 := y])"
  by (cases n) simp_all

lemma bc_bfs_relax_skip: "v = w \<or> mat_at mat v w = NO_EDGE \<Longrightarrow> bc_bfs_relax mat v w st = st"
  by (cases st) (auto simp: bc_bfs_relax_def)

lemma bc_bfs_fold_arcs:
  "fold (bc_bfs_relax mat v) ws st =
     fold (bc_bfs_relax mat v) (filter (\<lambda>w. v \<noteq> w \<and> mat_at mat v w \<noteq> NO_EDGE) ws) st"
  by (induction ws arbitrary: st) (simp_all add: bc_bfs_relax_skip)

lemma bc_bfs_step_arcs:
  "bc_bfs_step mat (t, v # q) =
     fold (bc_bfs_relax mat v)
       (filter (\<lambda>w. v \<noteq> w \<and> mat_at mat v w \<noteq> NO_EDGE) [0..<unat (mat_n mat)])
       (t\<lparr>t_stack := v # t_stack t\<rparr>, q)"
  unfolding bc_bfs_step_def by (simp add: bc_bfs_fold_arcs [symmetric])

lemma layers_loop:
  "while_option (\<lambda>st. snd st \<noteq> []) (bc_bfs_step mat_layers) (trav_init 66 0, [0]) =
     Some (layers_result, [])"
  apply (simp add: trav_init_def rep66 list_update_code)
  apply ((rule while_turn, (simp; fail),
          simp add: bc_bfs_step_arcs bc_bfs_relax_def layers_at NO_EDGE_def INF32_def int32_def
            layers_n upt66 nth_chunk nth_near upd_chunk upd_near
            del: nth_Cons_numeral nth_Cons_pos)+)
  apply (rule while_exit, simp, simp add: layers_result_def upt66)
  done

lemma layers_traverse: "traverse mat_layers False 0 = Some layers_result"
  by (simp add: traverse_def layers_n layers_loop)

text \<open>
  The stack loop of source \<open>0\<close>, started as the function starts it (all of \<^verbatim>\<open>delta\<close> and
  \<^verbatim>\<open>centrality\<close> at \<open>0.0\<close>): what it leaves in \<^verbatim>\<open>centrality[63]\<close>. Node \<open>63\<close> is a
  predecessor of the stack's top \<open>65\<close> only.
\<close>

lemma layers_pass:
  "source_pass term_ops mat_layers False 0 (replicate 66 D_zero) =
     Some (snd (accumulate term_ops 66 layers_result 0 (replicate 66 D_zero)))"
  "snd (accumulate term_ops 66 layers_result 0 (replicate 66 D_zero)) ! 63 =
     D_add D_zero (D_add D_zero
       (D_mul (D_div (D_of_u32 2147483648) (D_of_u32 0)) (D_add D_one D_zero)))"
proof -
  let ?t = layers_result
  let ?d0 = "replicate 66 D_zero"
  note tr = layers_traverse
  show "source_pass term_ops mat_layers False 0 ?d0 = Some (snd (accumulate term_ops 66 ?t 0 ?d0))"
    by (simp add: source_pass_def tr layers_n)
  have s: "0 < unat (mat_n mat_layers)" by (simp add: layers_n)
  have w: "False \<longrightarrow> weights_le mat_layers 1 \<and> int (unat (mat_n mat_layers)) * 1 \<le> INF32" by simp
  from traverse_ok [OF layers_covered w s] tr have ok: "stack_ok 66 ?t" by (simp add: layers_n)
  then have pr: "\<forall>w<66. \<forall>v\<in>set (t_preds ?t ! w). v < 66 \<and> t_dist ?t ! v < t_dist ?t ! w"
    and ws: "distinct (t_stack ?t)" "set (t_stack ?t) \<subseteq> {..<66}" "stack_sorted (t_dist ?t) (t_stack ?t)"
    by (simp_all add: stack_ok_def)
  obtain rest where st: "t_stack ?t = 65 # 64 # 63 # rest" by (simp add: layers_result_def upt66)
  have p65: "t_preds ?t ! 65 = [63, 64]" and p64: "t_preds ?t ! 64 = [61, 62]"
    and s63: "t_sigma ?t ! 63 = 2147483648" and s65: "t_sigma ?t ! 65 = 0"
    by (simp_all add: layers_result_def upt66)
  have len: "length ?d0 = 66" by simp
  have fz: "fp_zero term_ops = D_zero" and fa: "fp_add term_ops = D_add"
    by (simp_all add: term_ops_def)
  note all = fold_pop_node [OF pr ws len, of term_ops 0 ?d0]
  have in_stack: "63 \<in> set (t_stack ?t)" by (simp add: st)
  have a: "snd (accumulate term_ops 66 ?t 0 ?d0) ! 63 =
             D_add D_zero (fst (accumulate term_ops 66 ?t 0 ?d0) ! 63)"
    using all in_stack by (simp add: accumulate_def fz fa)
  obtain d1 c1 where p1: "pop_node term_ops ?t 0 65 (?d0, ?d0) = (d1, c1)"
    by (cases "pop_node term_ops ?t 0 65 (?d0, ?d0)")
  obtain d2 c2 where p2: "pop_node term_ops ?t 0 64 (d1, c1) = (d2, c2)"
    by (cases "pop_node term_ops ?t 0 64 (d1, c1)")
  have l1: "length c1 = 66" using pop_node_centrality(1) [of term_ops ?t 0 65 ?d0 ?d0] p1 by simp
  have l2: "length c2 = 66" using pop_node_centrality(1) [of term_ops ?t 0 64 d1 c1] p2 l1 by simp
  have ws': "distinct (63 # rest)" "set (63 # rest) \<subseteq> {..<66}"
    "stack_sorted (t_dist ?t) (63 # rest)"
    using ws unfolding st by (simp_all add: stack_sorted_def)
  have far: "\<forall>y\<in>set (63 # rest). t_dist ?t ! y \<le> t_dist ?t ! 63"
    using ws'(3) by (simp add: stack_sorted_def)
  from fold_pop_node [OF pr ws' l2, of term_ops 0 d2] far
  have "fst (fold (pop_node term_ops ?t 0) (63 # rest) (d2, c2)) ! 63 = d2 ! 63" by blast
  then have b: "fst (accumulate term_ops 66 ?t 0 ?d0) ! 63 = d2 ! 63"
    by (simp add: accumulate_def st p1 p2 fz)
  have "d2 ! 63 = d1 ! 63"
    using pop_node_delta [of 63 ?t 64 term_ops 0 d1 c1] p2 by (simp add: p64)
  also have "d1 ! 63 = D_add D_zero (D_mul (D_div (D_of_u32 2147483648) (D_of_u32 0)) (D_add D_one D_zero))"
    using fst_pop_node [of term_ops ?t 0 65 ?d0 ?d0] p1
    by (simp add: p65 s63 s65 term_ops_def)
  finally show "snd (accumulate term_ops 66 ?t 0 ?d0) ! 63 =
           D_add D_zero (D_add D_zero
             (D_mul (D_div (D_of_u32 2147483648) (D_of_u32 0)) (D_add D_one D_zero)))"
    using a b by simp
qed

text \<open>
  C1 at the input \<^verbatim>\<open>AdjMat(66)\<close> with the 128 arcs of \<open>layer_arcs\<close>, unweighted: the pass
  of source \<open>0\<close> is not Brandes' dependency accumulation, although the buffer holds all
  \<open>66 \<times> 66\<close> cells and no distance overflows. Node \<open>65\<close> is at distance \<open>33\<close>
  and \<open>2^32 = 4294967296\<close> walks of \<open>33\<close> arcs, each a shortest path, lead to it from node
  \<open>0\<close>. The traversal records its predecessors \<open>63\<close> and \<open>64\<close> with \<^verbatim>\<open>sigma\<close> \<open>2^31\<close>
  each, and the \<^verbatim>\<open>uint32_t\<close> sum \<^verbatim>\<open>sigma[65]\<close> wraps to \<open>0\<close>. The stack loop then leaves
  in \<^verbatim>\<open>centrality[63]\<close> the value of \<open>0.0 + (0.0 + (2147483648 / 0) * (1.0 + 0.0))\<close>, a
  division by zero, where the accumulation of Brandes has \<open>2^31 / 2^32 * (1 + 0)\<close>.
\<close>

theorem C1_sigma_wraps:
  "covered mat_layers \<and> size_n mat_layers = 66 \<and>
   traverse mat_layers False 0 = Some layers_result \<and>
   t_dist layers_result ! 65 = 33 \<and>
   walks mat_layers 0 33 65 = 4294967296 \<and>
   t_preds layers_result ! 65 = [63, 64] \<and>
   t_sigma layers_result ! 63 = 2147483648 \<and>
   t_sigma layers_result ! 64 = 2147483648 \<and>
   t_sigma layers_result ! 65 = 0 \<and>
   source_pass term_ops mat_layers False 0 (replicate 66 D_zero) =
     Some (snd (accumulate term_ops 66 layers_result 0 (replicate 66 D_zero))) \<and>
   snd (accumulate term_ops 66 layers_result 0 (replicate 66 D_zero)) ! 63 =
     D_add D_zero (D_add D_zero
       (D_mul (D_div (D_of_u32 2147483648) (D_of_u32 0)) (D_add D_one D_zero)))"
proof -
  have "walks mat_layers 0 33 65 = 4294967296" using layers_walks [of 33 65] by simp
  moreover have "t_dist layers_result ! 65 = 33" "t_preds layers_result ! 65 = [63, 64]"
    "t_sigma layers_result ! 63 = 2147483648" "t_sigma layers_result ! 64 = 2147483648"
    "t_sigma layers_result ! 65 = 0"
    by (simp_all add: layers_result_def upt66)
  ultimately show ?thesis
    using layers_covered layers_n layers_traverse layers_pass by (simp add: size_n_def)
qed

end
